theory Spec2Isabelle
  imports Main "HOL-Library.Sublist" "HOL-Library.Multiset"
begin

section \<open>Text primitives of the print wrapper\<close>

text \<open>
  The tool \<^verbatim>\<open>wrap_debug_prints.py\<close> reads a Swift file as a list of lines
  (\<^verbatim>\<open>readlines()\<close>, every line with its trailing newline) and works on Python
  strings. A line is modelled as a \<^typ>\<open>string\<close>; one \<^typ>\<open>char\<close> stands for one
  code point of the decoded text, so the model covers the code points below 256.
  The character classes below are Python's classes restricted to that range.
\<close>

datatype error = IndexError | IOError

definition isspace :: "char \<Rightarrow> bool" where
  \<comment> \<open>\<^verbatim>\<open>str.isspace\<close> (also the class \<^verbatim>\<open>\s\<close> of \<^verbatim>\<open>re\<close>) on code points below 256\<close>
  "isspace c =
     (let n = (of_char c :: nat)
      in (9 \<le> n \<and> n \<le> 13) \<or> (28 \<le> n \<and> n \<le> 32) \<or> n = 133 \<or> n = 160)"

definition isword :: "char \<Rightarrow> bool" where
  \<comment> \<open>the class \<^verbatim>\<open>\w\<close> of \<^verbatim>\<open>re\<close> on code points below 256\<close>
  "isword c =
     (let n = (of_char c :: nat)
      in (48 \<le> n \<and> n \<le> 57) \<or> (65 \<le> n \<and> n \<le> 90) \<or> n = 95 \<or> (97 \<le> n \<and> n \<le> 122)
         \<or> n = 170 \<or> n = 178 \<or> n = 179 \<or> n = 181 \<or> n = 185 \<or> n = 186
         \<or> (188 \<le> n \<and> n \<le> 190) \<or> (192 \<le> n \<and> n \<le> 214) \<or> (216 \<le> n \<and> n \<le> 246)
         \<or> 248 \<le> n)"

definition lstrip :: "string \<Rightarrow> string" where
  "lstrip s = dropWhile isspace s"

definition rstrip :: "string \<Rightarrow> string" where
  "rstrip s = rev (dropWhile isspace (rev s))"

definition strip :: "string \<Rightarrow> string" where
  "strip s = rstrip (lstrip s)"

fun startswith :: "string \<Rightarrow> string \<Rightarrow> bool" where
  \<comment> \<open>\<^verbatim>\<open>s.startswith(p)\<close>\<close>
  "startswith s [] = True"
| "startswith [] (p # ps) = False"
| "startswith (c # cs) (p # ps) = (c = p \<and> startswith cs ps)"

text \<open>
  \<^verbatim>\<open>re.search(r'\bprint\s*\(', line)\<close>: somewhere in the line stands \<^verbatim>\<open>print\<close>, not
  preceded by a word character, followed by any number of whitespace characters and an
  opening parenthesis. \<open>print_here\<close> matches the pattern without its \<^verbatim>\<open>\b\<close> at the
  head of a string; \<open>search_from\<close> tries every position, carrying whether the character
  before it is a word character.
\<close>

definition print_here :: "string \<Rightarrow> bool" where
  "print_here s =
     (startswith s ''print'' \<and> startswith (dropWhile isspace (drop 5 s)) ''('')"

fun search_from :: "bool \<Rightarrow> string \<Rightarrow> bool" where
  "search_from prev_word [] = False"
| "search_from prev_word (c # cs) =
     ((\<not> prev_word \<and> print_here (c # cs)) \<or> search_from (isword c) cs)"

definition has_print_call :: "string \<Rightarrow> bool" where
  "has_print_call line_text = search_from False line_text"

section \<open>\<^verbatim>\<open>get_indentation\<close>\<close>

definition get_indentation :: "string \<Rightarrow> nat" where
  \<comment> \<open>\<^verbatim>\<open>len(line) - len(line.lstrip())\<close>\<close>
  "get_indentation line_text = length line_text - length (lstrip line_text)"

section \<open>\<^verbatim>\<open>is_already_wrapped\<close>\<close>

definition is_guard_open :: "string \<Rightarrow> bool" where
  \<comment> \<open>\<^verbatim>\<open>lines[i].strip().startswith('#if DEBUG')\<close>\<close>
  "is_guard_open line_text = startswith (strip line_text) ''#if DEBUG''"

definition is_guard_close :: "string \<Rightarrow> bool" where
  \<comment> \<open>\<^verbatim>\<open>lines[j].strip().startswith('#endif')\<close>\<close>
  "is_guard_close line_text = startswith (strip line_text) ''#endif''"

definition is_declaration :: "string \<Rightarrow> bool" where
  \<comment> \<open>the test before \<^verbatim>\<open>break\<close>, on the stripped line\<close>
  "is_declaration line_text =
     (let s = strip line_text
      in startswith s ''func '' \<or> startswith s ''var '' \<or> startswith s ''let ''
         \<or> startswith s ''class '' \<or> startswith s ''struct '')"

text \<open>
  The inner loop \<^verbatim>\<open>for j in range(line_idx + 1, min(len(lines), line_idx + 10))\<close>;
  every \<open>j\<close> of that range is below \<^verbatim>\<open>len(lines)\<close>, so the read cannot fail.
\<close>

fun forward_scan :: "string list \<Rightarrow> nat list \<Rightarrow> bool" where
  "forward_scan lines [] = False"
| "forward_scan lines (j # js) =
     (if is_guard_close (lines ! j) then True else forward_scan lines js)"

definition forward_window :: "string list \<Rightarrow> nat \<Rightarrow> nat list" where
  "forward_window lines line_idx = [line_idx + 1 ..< min (length lines) (line_idx + 10)]"

text \<open>
  The outer loop \<^verbatim>\<open>for i in range(line_idx - 1, max(0, line_idx - 10), -1)\<close>. The
  stop value of a Python range is exclusive. \<^verbatim>\<open>lines[i]\<close> raises \<^verbatim>\<open>IndexError\<close>
  when \<open>i\<close> is not below \<^verbatim>\<open>len(lines)\<close> (every \<open>i\<close> of the range is at least 1,
  so no index is negative). A line that starts with the guard-open text and whose forward
  scan finds nothing falls through to the declaration test, as in the source.
\<close>

fun backward_scan :: "string list \<Rightarrow> nat \<Rightarrow> nat list \<Rightarrow> error + bool" where
  "backward_scan lines line_idx [] = Inr False"
| "backward_scan lines line_idx (i # rest) =
     (if i < length lines then
        (if is_guard_open (lines ! i) \<and> forward_scan lines (forward_window lines line_idx)
         then Inr True
         else if is_declaration (lines ! i) then Inr False
         else backward_scan lines line_idx rest)
      else Inl IndexError)"

definition backward_window :: "nat \<Rightarrow> nat list" where
  \<comment> \<open>on naturals \<open>line_idx - 10\<close> is \<^verbatim>\<open>max(0, line_idx - 10)\<close>\<close>
  "backward_window line_idx = rev [Suc (line_idx - 10) ..< line_idx]"

definition is_already_wrapped :: "string list \<Rightarrow> nat \<Rightarrow> error + bool" where
  "is_already_wrapped lines line_idx =
     backward_scan lines line_idx (backward_window line_idx)"

section \<open>\<^verbatim>\<open>find_print_end\<close>\<close>

record scan_state =
  paren_count :: int
  in_string :: bool
  escape_next :: bool

definition scan_init :: scan_state where
  "scan_init = \<lparr>paren_count = 0, in_string = False, escape_next = False\<rparr>"

datatype scan_result = Returned | Continue scan_state

definition backslash :: char where
  "backslash = CHR 0x5C"

definition dquote :: char where
  "dquote = CHR 0x22"

text \<open>
  One round of the loop over the characters of a line. \<open>Returned\<close> is the
  \<^verbatim>\<open>return idx\<close> inside that loop; \<open>Continue\<close> carries the three local variables
  to the next character.
\<close>

definition scan_char :: "scan_state \<Rightarrow> char \<Rightarrow> scan_result" where
  "scan_char st c =
     (if escape_next st then Continue (st\<lparr>escape_next := False\<rparr>)
      else if c = backslash then Continue (st\<lparr>escape_next := True\<rparr>)
      else if c = dquote \<and> \<not> in_string st then Continue (st\<lparr>in_string := True\<rparr>)
      else if c = dquote \<and> in_string st then Continue (st\<lparr>in_string := False\<rparr>)
      else if \<not> in_string st then
        (if c = CHR ''('' then Continue (st\<lparr>paren_count := paren_count st + 1\<rparr>)
         else if c = CHR '')'' then
           (if paren_count st - 1 = 0 then Returned
            else Continue (st\<lparr>paren_count := paren_count st - 1\<rparr>))
         else Continue st)
      else Continue st)"

fun scan_line :: "scan_state \<Rightarrow> string \<Rightarrow> scan_result" where
  "scan_line st [] = Continue st"
| "scan_line st (c # cs) =
     (case scan_char st c of Returned \<Rightarrow> Returned | Continue st' \<Rightarrow> scan_line st' cs)"

text \<open>
  The loop \<^verbatim>\<open>for idx in range(start_idx, len(lines))\<close> over the lines that are left,
  \<open>idx\<close> being the index of the first of them: \<open>Some idx\<close> for \<^verbatim>\<open>return idx\<close>,
  \<open>None\<close> when the loop runs to its end.
\<close>

fun scan_lines :: "scan_state \<Rightarrow> nat \<Rightarrow> string list \<Rightarrow> nat option" where
  "scan_lines st idx [] = None"
| "scan_lines st idx (l # ls) =
     (case scan_line st l of Returned \<Rightarrow> Some idx | Continue st' \<Rightarrow> scan_lines st' (Suc idx) ls)"

definition find_print_end :: "string list \<Rightarrow> nat \<Rightarrow> nat" where
  "find_print_end lines start_idx =
     (case scan_lines scan_init start_idx (drop start_idx lines) of
        Some idx \<Rightarrow> idx
      | None \<Rightarrow> start_idx)"

lemma scan_lines_bounds:
  "scan_lines st idx ls = Some e \<Longrightarrow> idx \<le> e \<and> e < idx + length ls"
proof (induction ls arbitrary: st idx)
  case Nil
  then show ?case by simp
next
  case (Cons l ls)
  show ?case
  proof (cases "scan_line st l")
    case Returned
    with Cons.prems show ?thesis by simp
  next
    case (Continue st')
    with Cons.prems have "scan_lines st' (Suc idx) ls = Some e" by simp
    from Cons.IH [OF this] show ?thesis by simp
  qed
qed

lemma find_print_end_ge: "start_idx \<le> find_print_end lines start_idx"
  by (auto simp: find_print_end_def split: option.splits dest: scan_lines_bounds)

lemma find_print_end_less:
  "start_idx < length lines \<Longrightarrow> find_print_end lines start_idx < length lines"
  by (auto simp: find_print_end_def split: option.splits dest!: scan_lines_bounds)

section \<open>\<^verbatim>\<open>wrap_prints_in_file\<close>\<close>

definition is_print_line :: "string \<Rightarrow> bool" where
  \<comment> \<open>the test of the \<^verbatim>\<open>while\<close> body: the pattern is found and the stripped line is no
      \<^verbatim>\<open>//\<close> comment\<close>
  "is_print_line line_text =
     (has_print_call line_text \<and> \<not> startswith (strip line_text) ''//'')"

definition guard_open_line :: "nat \<Rightarrow> string" where
  \<comment> \<open>\<^verbatim>\<open>f"{indent}#if DEBUG\n"\<close> with \<^verbatim>\<open>indent = ' ' * n\<close>\<close>
  "guard_open_line n = replicate n CHR '' '' @ ''#if DEBUG\<newline>''"

definition guard_close_line :: "nat \<Rightarrow> string" where
  \<comment> \<open>\<^verbatim>\<open>f"{indent}#endif\n"\<close>\<close>
  "guard_close_line n = replicate n CHR '' '' @ ''#endif\<newline>''"

definition span_lines :: "string list \<Rightarrow> nat \<Rightarrow> nat \<Rightarrow> string list" where
  \<comment> \<open>the lines appended by \<^verbatim>\<open>for j in range(i, end_idx + 1)\<close>; \<open>end_idx\<close> is below
      \<^verbatim>\<open>len(lines)\<close> (\<open>find_print_end_less\<close>)\<close>
  "span_lines lines i end_idx = map (\<lambda>j. lines ! j) [i ..< end_idx + 1]"

text \<open>
  The \<^verbatim>\<open>while i < len(lines)\<close> loop with its three variables \<open>i\<close>, \<open>new_lines\<close>
  and \<open>changes_made\<close>.
\<close>

function wrap_loop :: "string list \<Rightarrow> nat \<Rightarrow> string list \<Rightarrow> nat \<Rightarrow> error + (string list \<times> nat)" where
  "wrap_loop lines i new_lines changes_made =
     (if i < length lines then
        (if is_print_line (lines ! i) then
           (case is_already_wrapped lines i of
              Inl e \<Rightarrow> Inl e
            | Inr wrapped \<Rightarrow>
                if \<not> wrapped then
                  wrap_loop lines (find_print_end lines i + 1)
                    (new_lines
                      @ [guard_open_line (get_indentation (lines ! i))]
                      @ span_lines lines i (find_print_end lines i)
                      @ [guard_close_line (get_indentation (lines ! i))])
                    (changes_made + 1)
                else wrap_loop lines (i + 1) (new_lines @ [lines ! i]) changes_made)
         else wrap_loop lines (i + 1) (new_lines @ [lines ! i]) changes_made)
      else Inr (new_lines, changes_made))"
  by pat_completeness auto
termination
proof (relation "measure (\<lambda>(lines, i, new_lines, changes_made). length lines - i)")
  show "wf (measure (\<lambda>(lines, i, new_lines, changes_made). length lines - i))"
    by simp
next
  fix lines :: "string list" and i :: nat and new_lines :: "string list" and changes_made :: nat
    and wrapped :: bool
  assume "i < length lines"
  moreover have "i \<le> find_print_end lines i" by (rule find_print_end_ge)
  ultimately show "((lines, find_print_end lines i + 1,
        new_lines @ [guard_open_line (get_indentation (lines ! i))]
          @ span_lines lines i (find_print_end lines i)
          @ [guard_close_line (get_indentation (lines ! i))],
        changes_made + 1),
      (lines, i, new_lines, changes_made))
    \<in> measure (\<lambda>(lines, i, new_lines, changes_made). length lines - i)"
    by simp
qed auto

declare wrap_loop.simps [simp del]

text \<open>
  The loop from an empty \<open>new_lines\<close> and count 0, as \<^verbatim>\<open>wrap_prints_in_file\<close>
  starts it on the lines it has read.
\<close>

definition transform_lines :: "string list \<Rightarrow> error + (string list \<times> nat)" where
  "transform_lines lines = wrap_loop lines 0 [] 0"

subsection \<open>Reading and writing the file\<close>

text \<open>
  The file is opened in text mode with the default \<^verbatim>\<open>newline=None\<close>. On reading,
  every \<^verbatim>\<open>\r\n\<close> and every single \<^verbatim>\<open>\r\<close> of the decoded text becomes
  \<^verbatim>\<open>\n\<close>, and \<^verbatim>\<open>readlines()\<close> cuts the text after each \<^verbatim>\<open>\n\<close>; a
  last piece without \<^verbatim>\<open>\n\<close> is a line of its own. \<^verbatim>\<open>writelines\<close> writes the
  strings one after the other, adding nothing between them; \<^verbatim>\<open>\n\<close> is written as
  \<^verbatim>\<open>os.linesep\<close>, which is \<^verbatim>\<open>\n\<close> on the POSIX systems modelled here.
\<close>

definition linefeed :: char where
  "linefeed = CHR 0x0A"

definition carriage_return :: char where
  "carriage_return = CHR 0x0D"

fun universal_newlines :: "string \<Rightarrow> string" where
  "universal_newlines [] = []"
| "universal_newlines [c] = (if c = carriage_return then [linefeed] else [c])"
| "universal_newlines (c # d # cs) =
     (if c = carriage_return then
        (if d = linefeed then linefeed # universal_newlines cs
         else linefeed # universal_newlines (d # cs))
      else c # universal_newlines (d # cs))"

fun split_lines :: "string \<Rightarrow> string \<Rightarrow> string list" where
  \<comment> \<open>\<open>cur\<close> is the line read so far\<close>
  "split_lines cur [] = (if cur = [] then [] else [cur])"
| "split_lines cur (c # cs) =
     (if c = linefeed then (cur @ [c]) # split_lines [] cs else split_lines (cur @ [c]) cs)"

definition readlines :: "string \<Rightarrow> string list" where
  "readlines content = split_lines [] (universal_newlines content)"

definition writelines :: "string list \<Rightarrow> string" where
  "writelines new_lines = concat new_lines"

text \<open>
  \<^verbatim>\<open>wrap_prints_in_file\<close>. Its first argument is what the read gives: the decoded text
  of the file, or \<open>Inl\<close> when \<^verbatim>\<open>open\<close> or the decoding raises; its second says
  whether the write succeeds. The result is what became of the file and the returned
  count. A failed read returns 0 and leaves the file alone; with \<open>changes_made = 0\<close>
  nothing is written; a failed write returns 0. What is printed is not modelled.
\<close>

datatype outcome = Untouched | Written string | Write_failed

definition wrap_prints_in_file :: "error + string \<Rightarrow> bool \<Rightarrow> error + (outcome \<times> nat)" where
  "wrap_prints_in_file file write_ok =
     (case file of
        Inl e \<Rightarrow> Inr (Untouched, 0)
      | Inr content \<Rightarrow>
          (case transform_lines (readlines content) of
             Inl e \<Rightarrow> Inl e
           | Inr (new_lines, changes_made) \<Rightarrow>
               if changes_made > 0 then
                 (if write_ok then Inr (Written (writelines new_lines), changes_made)
                  else Inr (Write_failed, 0))
               else Inr (Untouched, changes_made)))"

section \<open>Notions used to state the properties\<close>

subsection \<open>String literals\<close>

text \<open>
  The text between the two double quotes of a string literal: any characters but a double
  quote or a backslash, and escape pairs (a backslash and the character after it).
\<close>

fun literal_body :: "string \<Rightarrow> bool" where
  "literal_body [] = True"
| "literal_body [c] = (c \<noteq> backslash \<and> c \<noteq> dquote)"
| "literal_body (c # d # cs) =
     (if c = backslash then literal_body cs else c \<noteq> dquote \<and> literal_body (d # cs))"

definition plain_char :: "char \<Rightarrow> bool" where
  \<comment> \<open>a character the scan of \<^verbatim>\<open>find_print_end\<close> does not react to\<close>
  "plain_char c = (c \<noteq> backslash \<and> c \<noteq> dquote \<and> c \<noteq> CHR ''('' \<and> c \<noteq> CHR '')'')"

subsection \<open>The statement end, in the specification's words\<close>

text \<open>
  The statement end as the specification words it, to be compared with
  \<open>find_print_end\<close>: the same rules for escapes, quotes and depth, but the depth is
  looked at only after the full content of a line; the scan ends at the first line after
  which the depth is exactly zero, having exceeded zero before.
\<close>

record spec_state =
  depth :: int
  quoted :: bool
  escaped :: bool
  was_positive :: bool

definition spec_init :: spec_state where
  "spec_init = \<lparr>depth = 0, quoted = False, escaped = False, was_positive = False\<rparr>"

definition spec_char :: "spec_state \<Rightarrow> char \<Rightarrow> spec_state" where
  "spec_char st c =
     (if escaped st then st\<lparr>escaped := False\<rparr>
      else if c = backslash then st\<lparr>escaped := True\<rparr>
      else if c = dquote then st\<lparr>quoted := \<not> quoted st\<rparr>
      else if \<not> quoted st \<and> c = CHR ''('' then
        st\<lparr>depth := depth st + 1, was_positive := was_positive st \<or> 0 < depth st + 1\<rparr>
      else if \<not> quoted st \<and> c = CHR '')'' then st\<lparr>depth := depth st - 1\<rparr>
      else st)"

fun spec_scan_lines :: "spec_state \<Rightarrow> nat \<Rightarrow> string list \<Rightarrow> nat option" where
  "spec_scan_lines st idx [] = None"
| "spec_scan_lines st idx (l # ls) =
     (let st' = foldl spec_char st l
      in if depth st' = 0 \<and> was_positive st' then Some idx
         else spec_scan_lines st' (Suc idx) ls)"

definition spec_statement_end :: "string list \<Rightarrow> nat \<Rightarrow> nat" where
  "spec_statement_end lines start_idx =
     (case spec_scan_lines spec_init start_idx (drop start_idx lines) of
        Some idx \<Rightarrow> idx
      | None \<Rightarrow> start_idx)"

subsection \<open>Marker lines and guard pairing\<close>

definition is_marker :: "string \<Rightarrow> bool" where
  \<comment> \<open>a line the detector takes for a guard-open or a guard-close marker\<close>
  "is_marker l = (is_guard_open l \<or> is_guard_close l)"

definition inserted_marker :: "string \<Rightarrow> bool" where
  \<comment> \<open>a line of the form the rewriter emits: spaces, the marker text, a newline\<close>
  "inserted_marker l =
     (l = guard_open_line (get_indentation l) \<or> l = guard_close_line (get_indentation l))"

text \<open>
  The number of guards that are open after a sequence of lines, counting from \<open>n\<close>:
  a guard-open line opens one, a guard-close line closes one. A line is enclosed by a
  guard pair when this number is positive for the lines before it.
\<close>

fun guards_open_after :: "nat \<Rightarrow> string list \<Rightarrow> nat" where
  "guards_open_after n [] = n"
| "guards_open_after n (l # ls) =
     guards_open_after
       (if is_guard_open l then n + 1 else if is_guard_close l then n - 1 else n) ls"

text \<open>
  Guard pairing, as a scan over a line sequence. Outside a guard, the only marker that
  may come is a guard-open line; the line after it is no marker and has the indentation
  of the guard-open line (\<open>Opened n\<close>); from there to the guard-close line no
  guard-open line comes, and the guard-close line has that indentation too
  (\<open>Inside n\<close>); the sequence ends outside a guard. So every guard-open line is
  followed by exactly one guard-close line before the next guard-open line or the end.
\<close>

datatype pairing = Outside | Opened nat | Inside nat

fun guards_paired :: "pairing \<Rightarrow> string list \<Rightarrow> bool" where
  "guards_paired Outside [] = True"
| "guards_paired (Opened n) [] = False"
| "guards_paired (Inside n) [] = False"
| "guards_paired Outside (l # ls) =
     (if is_guard_open l then guards_paired (Opened (get_indentation l)) ls
      else \<not> is_guard_close l \<and> guards_paired Outside ls)"
| "guards_paired (Opened n) (l # ls) =
     (\<not> is_marker l \<and> get_indentation l = n \<and> guards_paired (Inside n) ls)"
| "guards_paired (Inside n) (l # ls) =
     (if is_guard_close l then get_indentation l = n \<and> guards_paired Outside ls
      else \<not> is_guard_open l \<and> guards_paired (Inside n) ls)"

subsection \<open>The pieces of the output\<close>

text \<open>
  The rounds of the rewriting loop, as the pieces of its output: a line passed on
  unchanged, or a span of lines that is put between two markers of a given indentation.
  \<open>segments lines i\<close> lists the pieces the loop produces from index \<open>i\<close> on
  (\<open>wrap_loop_segments\<close> below proves that); \<open>render\<close> is what a piece adds to the
  output, \<open>original\<close> the input lines it holds, \<open>inserted\<close> the marker lines it adds.
\<close>

datatype segment = Plain string | Guarded nat "string list"

function segments :: "string list \<Rightarrow> nat \<Rightarrow> segment list" where
  "segments lines i =
     (if i < length lines then
        (if is_print_line (lines ! i) \<and> is_already_wrapped lines i = Inr False then
           Guarded (get_indentation (lines ! i)) (span_lines lines i (find_print_end lines i))
             # segments lines (Suc (find_print_end lines i))
         else Plain (lines ! i) # segments lines (Suc i))
      else [])"
  by pat_completeness auto
termination
proof (relation "measure (\<lambda>(lines, i). length lines - i)")
  show "wf (measure (\<lambda>(lines, i). length lines - i))"
    by simp
next
  fix lines :: "string list" and i :: nat
  assume "i < length lines"
  moreover have "i \<le> find_print_end lines i" by (rule find_print_end_ge)
  ultimately show "((lines, Suc (find_print_end lines i)), (lines, i))
      \<in> measure (\<lambda>(lines, i). length lines - i)"
    by simp
qed auto

declare segments.simps [simp del]

fun render :: "segment \<Rightarrow> string list" where
  "render (Plain l) = [l]"
| "render (Guarded n body) = guard_open_line n # body @ [guard_close_line n]"

fun original :: "segment \<Rightarrow> string list" where
  "original (Plain l) = [l]"
| "original (Guarded n body) = body"

fun is_guarded :: "segment \<Rightarrow> bool" where
  "is_guarded (Plain l) = False"
| "is_guarded (Guarded n body) = True"

fun inserted :: "segment \<Rightarrow> string list" where
  "inserted (Plain l) = []"
| "inserted (Guarded n body) = [guard_open_line n, guard_close_line n]"

text \<open>
  A piece that keeps the markers paired: no marker among its original lines, and for a
  guarded span the indentation of its first line.
\<close>

fun paired_segment :: "segment \<Rightarrow> bool" where
  "paired_segment (Plain l) = (\<not> is_marker l)"
| "paired_segment (Guarded n body) =
     (body \<noteq> [] \<and> n = get_indentation (hd body) \<and> (\<forall>l\<in>set body. \<not> is_marker l))"

text \<open>
  A piece whose print lines a second run finds wrapped: a line passed on is no print
  line; a guarded span has at most 9 lines and no declaration line before a print line.
\<close>

fun idempotent_segment :: "segment \<Rightarrow> bool" where
  "idempotent_segment (Plain l) = (\<not> is_print_line l)"
| "idempotent_segment (Guarded n body) =
     (length body \<le> 9
      \<and> (\<forall>t<length body. is_print_line (body ! t) \<longrightarrow> (\<forall>u<t. \<not> is_declaration (body ! u))))"

subsection \<open>A second run\<close>

text \<open>
  A line as \<^verbatim>\<open>readlines()\<close> gives it when the text goes on after it: it ends with a
  line feed and holds no other line feed and no carriage return.
\<close>

definition terminated :: "string \<Rightarrow> bool" where
  "terminated l =
     (l \<noteq> [] \<and> last l = linefeed \<and> linefeed \<notin> set (butlast l) \<and> carriage_return \<notin> set l)"

text \<open>
  The program run twice on one file, both writes succeeding: the second run reads what
  the first run left in the file.
\<close>

definition second_run :: "string \<Rightarrow> error + (outcome \<times> nat)" where
  "second_run content =
     (case wrap_prints_in_file (Inr content) True of
        Inl e \<Rightarrow> Inl e
      | Inr (Untouched, n) \<Rightarrow> wrap_prints_in_file (Inr content) True
      | Inr (Written content', n) \<Rightarrow> wrap_prints_in_file (Inr content') True
      | Inr (Write_failed, n) \<Rightarrow> Inr (Write_failed, n))"

text \<open>
  \<open>spans_fit\<close>: every print statement ends within 9 lines, its first line counted
  (\<open>find_print_end\<close> returns at most the start index plus 8).
  \<open>spans_declaration_free\<close>: in the span of a print statement no declaration line
  stands before a later print line of that span.
\<close>

definition spans_fit :: "string list \<Rightarrow> bool" where
  "spans_fit lines =
     (\<forall>i\<in>set [0..<length lines].
        is_print_line (lines ! i) \<longrightarrow> find_print_end lines i \<le> i + 8)"

definition spans_declaration_free :: "string list \<Rightarrow> bool" where
  "spans_declaration_free lines =
     (\<forall>i\<in>set [0..<length lines]. is_print_line (lines ! i)
        \<longrightarrow> (\<forall>j\<in>set [Suc i..<Suc (find_print_end lines i)]. is_print_line (lines ! j)
              \<longrightarrow> (\<forall>u\<in>set [i..<j]. \<not> is_declaration (lines ! u))))"

subsection \<open>Example files\<close>

definition guarded_at_top :: "string list" where
  \<comment> \<open>a file that begins with a guarded print\<close>
  "guarded_at_top = [''#if DEBUG\<newline>'', ''print(x)\<newline>'', ''#endif\<newline>'']"

definition guard_ten_back :: "string list" where
  \<comment> \<open>the guard-open marker is the tenth line before the print at index 11\<close>
  "guard_ten_back =
     [''import Foundation\<newline>'', ''#if DEBUG\<newline>''] @ replicate 9 ''//\<newline>''
       @ [''print(x)\<newline>'', ''#endif\<newline>'']"

definition guard_nine_back :: "string list" where
  \<comment> \<open>the guard-open marker is the ninth line before the print at index 11\<close>
  "guard_nine_back =
     [''import Foundation\<newline>'', ''//\<newline>'', ''#if DEBUG\<newline>''] @ replicate 8 ''//\<newline>''
       @ [''print(x)\<newline>'', ''#endif\<newline>'']"

definition close_ten_ahead :: "string list" where
  \<comment> \<open>the guard-close marker is the tenth line after the print at index 2\<close>
  "close_ten_ahead =
     [''import Foundation\<newline>'', ''#if DEBUG\<newline>'', ''print(x)\<newline>'']
       @ replicate 9 ''//\<newline>'' @ [''#endif\<newline>'']"

definition close_nine_ahead :: "string list" where
  \<comment> \<open>the guard-close marker is the ninth line after the print at index 2\<close>
  "close_nine_ahead =
     [''import Foundation\<newline>'', ''#if DEBUG\<newline>'', ''print(x)\<newline>'']
       @ replicate 8 ''//\<newline>'' @ [''#endif\<newline>'']"

definition unpaired_markers :: "string list" where
  \<comment> \<open>the print at index 4 stands between two complete guard blocks of other
      indentation\<close>
  "unpaired_markers =
     [''import Foundation\<newline>'',
      ''    #if DEBUG\<newline>'', ''    log(a)\<newline>'', ''    #endif\<newline>'',
      ''print(x)\<newline>'',
      ''        #if DEBUG\<newline>'', ''        log(b)\<newline>'', ''        #endif\<newline>'']"

definition declaration_between :: "string list" where
  \<comment> \<open>a declaration stands between the guard-open marker and the print at index 4\<close>
  "declaration_between =
     [''import Foundation\<newline>'', ''#if DEBUG\<newline>'', ''func f() {\<newline>'',
      ''  x = 1\<newline>'', ''  print(x)\<newline>'', ''#endif\<newline>'']"

definition call_before_print :: "string list" where
  \<comment> \<open>\<^verbatim>\<open>if ok() { print("a",\<close> and \<^verbatim>\<open>  b) }\<close>: the depth touches zero after
      \<^verbatim>\<open>ok()\<close> and is 1 at the end of the first line\<close>
  "call_before_print =
     [''if ok() { print('' @ [dquote] @ ''a'' @ [dquote] @ '',\<newline>'', ''  b) }\<newline>'']"

definition trailing_comment_print :: "string list" where
  \<comment> \<open>the print token stands inside a line comment that does not begin the line\<close>
  "trailing_comment_print = [''let x = 1 // print(x)\<newline>'']"

definition long_statement :: "string list" where
  \<comment> \<open>a print statement of 12 lines, after one other line\<close>
  "long_statement =
     [''import Foundation\<newline>'', ''print(a,\<newline>''] @ replicate 10 ''  b,\<newline>'' @ [''  c)\<newline>'']"

definition long_statement_once :: "string list" where
  \<comment> \<open>\<open>long_statement\<close> with one pair of markers around the statement\<close>
  "long_statement_once =
     [''import Foundation\<newline>'', ''#if DEBUG\<newline>'', ''print(a,\<newline>''] @ replicate 10 ''  b,\<newline>''
       @ [''  c)\<newline>'', ''#endif\<newline>'']"

definition long_statement_twice :: "string list" where
  \<comment> \<open>\<open>long_statement\<close> with two pairs of markers around the statement\<close>
  "long_statement_twice =
     [''import Foundation\<newline>'', ''#if DEBUG\<newline>'', ''#if DEBUG\<newline>'', ''print(a,\<newline>'']
       @ replicate 10 ''  b,\<newline>'' @ [''  c)\<newline>'', ''#endif\<newline>'', ''#endif\<newline>'']"

definition declaration_in_span :: "string list" where
  \<comment> \<open>a print statement of two lines whose first line is a declaration line and whose
      second line holds a print token too\<close>
  "declaration_in_span =
     [''import Foundation\<newline>'', ''let z = f(print(a),\<newline>'', ''  print(b))\<newline>'']"

definition stale_guard :: "string list" where
  \<comment> \<open>a guard that is there already: its guard-close marker is within the forward window
      of the second print, not of the first\<close>
  "stale_guard =
     [''import Foundation\<newline>'', ''#if DEBUG\<newline>'', ''print(c)\<newline>'']
       @ replicate 7 ''work()\<newline>'' @ [''print(a)\<newline>'', ''work()\<newline>'', ''#endif\<newline>'']"

definition no_final_newline :: string where
  \<comment> \<open>a file of two lines whose last line, a print, has no newline\<close>
  "no_final_newline = ''import Foundation\<newline>print(x)''"

definition crlf_file :: string where
  \<comment> \<open>a file of two lines that end with carriage return and line feed\<close>
  "crlf_file =
     ''import Foundation'' @ [carriage_return, linefeed] @ ''print(x)'' @ [carriage_return, linefeed]"

definition wrapped_twice_ok :: "string list" where
  \<comment> \<open>a two-line and a one-line print statement, neither on the first line\<close>
  "wrapped_twice_ok =
     [''import Foundation\<newline>'', ''  print(a,\<newline>'', ''    b)\<newline>'', ''let y = 2\<newline>'', ''print(y)\<newline>'']"

section \<open>The scan of \<^verbatim>\<open>find_print_end\<close>\<close>

lemma scan_line_append:
  "scan_line st (a @ b) =
     (case scan_line st a of Returned \<Rightarrow> Returned | Continue st' \<Rightarrow> scan_line st' b)"
  by (induction a arbitrary: st) (auto split: scan_result.splits)

lemma scan_line_in_literal:
  "in_string st \<Longrightarrow> \<not> escape_next st \<Longrightarrow> literal_body b \<Longrightarrow> scan_line st b = Continue st"
proof (induction b arbitrary: st rule: literal_body.induct)
  case 1
  then show ?case by simp
next
  case (2 c)
  then show ?case by (simp add: scan_char_def)
next
  case (3 c d cs)
  then show ?case by (auto simp: scan_char_def split: if_splits)
qed

lemma scan_line_string_literal:
  assumes "\<not> in_string st" "\<not> escape_next st" "literal_body b"
  shows "scan_line st (dquote # b @ [dquote]) = Continue st"
proof -
  let ?inside = "st\<lparr>in_string := True\<rparr>"
  have first: "scan_char st dquote = Continue ?inside"
    using assms by (simp add: scan_char_def backslash_def dquote_def)
  have body: "scan_line ?inside b = Continue ?inside"
    using assms by (intro scan_line_in_literal) simp_all
  have last: "scan_line ?inside [dquote] = Continue st"
    using assms by (simp add: scan_char_def backslash_def dquote_def)
  have "scan_line st (dquote # b @ [dquote]) = scan_line ?inside (b @ [dquote])"
    by (simp add: first)
  also have "\<dots> = scan_line ?inside [dquote]"
    by (simp add: scan_line_append body del: scan_line.simps)
  finally show ?thesis
    by (simp only: last)
qed

lemma scan_line_plain:
  "\<not> escape_next st \<Longrightarrow> list_all plain_char s \<Longrightarrow> scan_line st s = Continue st"
  by (induction s) (auto simp: scan_char_def plain_char_def)

lemma scan_line_close:
  "\<not> escape_next st \<Longrightarrow> \<not> in_string st \<Longrightarrow> paren_count st = 1
    \<Longrightarrow> scan_line st (CHR '')'' # r) = Returned"
  by (simp add: scan_char_def backslash_def dquote_def)

lemma find_print_end_three:
  "scan_line scan_init l0 = Continue st \<Longrightarrow> scan_line st l1 = Continue st
    \<Longrightarrow> scan_line st l2 = Returned \<Longrightarrow> find_print_end [l0, l1, l2] 0 = 2"
  by (simp add: find_print_end_def)

lemma find_print_end_three_line_literal:
  assumes b: "literal_body b"
    and r0: "list_all plain_char r0" and l1: "list_all plain_char l1"
    and s2: "list_all plain_char s2"
  shows "find_print_end [''print('' @ dquote # b @ [dquote] @ r0, l1, s2 @ CHR '')'' # t2] 0 = 2"
proof -
  let ?st = "scan_init\<lparr>paren_count := 1\<rparr>"
  have st: "\<not> in_string ?st" "\<not> escape_next ?st" "paren_count ?st = 1"
    by (simp_all add: scan_init_def)
  have head: "scan_line scan_init ''print('' = Continue ?st"
    by (simp add: scan_char_def scan_init_def backslash_def dquote_def)
  have lit: "scan_line ?st (dquote # b @ [dquote]) = Continue ?st"
    using st b by (intro scan_line_string_literal)
  have "scan_line scan_init (''print('' @ (dquote # b @ [dquote]) @ r0) = Continue ?st"
    by (simp only: scan_line_append [of _ "''print(''"] head scan_result.case
        scan_line_append [of _ "dquote # b @ [dquote]"] lit scan_line_plain [OF st(2) r0])
  then have line0: "scan_line scan_init (''print('' @ dquote # b @ [dquote] @ r0) = Continue ?st"
    by simp
  have line1: "scan_line ?st l1 = Continue ?st"
    using st l1 by (intro scan_line_plain)
  have line2: "scan_line ?st (s2 @ CHR '')'' # t2) = Returned"
    by (simp only: scan_line_append [of _ s2] scan_line_plain [OF st(2) s2] scan_result.case
        scan_line_close [OF st(2) st(1) st(3)])
  show ?thesis
    using line0 line1 line2 by (rule find_print_end_three)
qed

text \<open>
  C3 (escape/quote-aware nesting). Inside a quoted region a parenthesis leaves the scan
  state, and so the depth counter, as it is. A double quote straight after an unescaped
  backslash does not toggle the quoted-region flag: the two characters together leave the
  state as it is. Hence a complete string literal, whatever parentheses and escaped
  quotes stand between its quotes, is passed over without a change of depth. In
  particular, for every three-line print statement whose first line opens the call and
  holds such a literal, and whose third line holds the first closing parenthesis outside
  the literal, \<open>find_print_end\<close> returns the index of the third line.
\<close>

theorem find_print_end_quote_escape_aware:
  "(in_string st \<and> \<not> escape_next st \<and> (c = CHR ''('' \<or> c = CHR '')'')
      \<longrightarrow> scan_char st c = Continue st)
   \<and> (\<not> escape_next st \<longrightarrow> scan_line st [backslash, dquote] = Continue st)
   \<and> (\<not> in_string st \<and> \<not> escape_next st \<and> literal_body b
      \<longrightarrow> scan_line st (dquote # b @ [dquote]) = Continue st)
   \<and> (literal_body b \<and> list_all plain_char r0 \<and> list_all plain_char l1 \<and> list_all plain_char s2
      \<longrightarrow> find_print_end
            [''print('' @ dquote # b @ [dquote] @ r0, l1, s2 @ CHR '')'' # t2] 0 = 2)"
proof (intro conjI impI)
  assume "in_string st \<and> \<not> escape_next st \<and> (c = CHR ''('' \<or> c = CHR '')'')"
  then show "scan_char st c = Continue st"
    by (auto simp: scan_char_def backslash_def dquote_def)
next
  assume "\<not> escape_next st"
  then show "scan_line st [backslash, dquote] = Continue st"
    by (simp add: scan_char_def)
next
  assume "\<not> in_string st \<and> \<not> escape_next st \<and> literal_body b"
  then have "\<not> in_string st" "\<not> escape_next st" "literal_body b"
    by simp_all
  then show "scan_line st (dquote # b @ [dquote]) = Continue st"
    by (rule scan_line_string_literal)
next
  assume "literal_body b \<and> list_all plain_char r0 \<and> list_all plain_char l1
    \<and> list_all plain_char s2"
  then have "literal_body b" "list_all plain_char r0" "list_all plain_char l1"
    "list_all plain_char s2"
    by simp_all
  then show "find_print_end
      [''print('' @ dquote # b @ [dquote] @ r0, l1, s2 @ CHR '')'' # t2] 0 = 2"
    by (rule find_print_end_three_line_literal)
qed

theorem find_print_end_quote_escape_aware_witness:
  "in_string (scan_init\<lparr>paren_count := 1, in_string := True\<rparr>)
   \<and> \<not> escape_next (scan_init\<lparr>paren_count := 1, in_string := True\<rparr>)
   \<and> scan_char (scan_init\<lparr>paren_count := 1, in_string := True\<rparr>) CHR '')''
       = Continue (scan_init\<lparr>paren_count := 1, in_string := True\<rparr>)
   \<and> scan_line (scan_init\<lparr>paren_count := 1, in_string := True\<rparr>) [backslash, dquote]
       = Continue (scan_init\<lparr>paren_count := 1, in_string := True\<rparr>)
   \<and> literal_body (''a'' @ [backslash, dquote] @ '') b'')
   \<and> list_all plain_char '',\<newline>'' \<and> list_all plain_char ''  x,\<newline>''
   \<and> list_all plain_char ''  y''
   \<and> find_print_end
       [''print('' @ dquote # (''a'' @ [backslash, dquote] @ '') b'') @ [dquote] @ '',\<newline>'',
        ''  x,\<newline>'',
        ''  y'' @ CHR '')'' # ''\<newline>''] 0 = 2"
proof -
  let ?st = "scan_init\<lparr>paren_count := 1, in_string := True\<rparr>"
  have h: "in_string ?st" "\<not> escape_next ?st"
    "literal_body (''a'' @ [backslash, dquote] @ '') b'')"
    "list_all plain_char '',\<newline>''" "list_all plain_char ''  x,\<newline>''"
    "list_all plain_char ''  y''"
    by (simp_all add: scan_init_def backslash_def dquote_def plain_char_def)
  note inst = find_print_end_quote_escape_aware
    [of ?st "CHR '')''" "''a'' @ [backslash, dquote] @ '') b''" "'',\<newline>''"
      "''  x,\<newline>''" "''  y''" "''\<newline>''"]
  have r1: "scan_char ?st CHR '')'' = Continue ?st"
    using inst h(1,2) by blast
  have r2: "scan_line ?st [backslash, dquote] = Continue ?st"
    using inst h(2) by blast
  have r3: "find_print_end
       [''print('' @ dquote # (''a'' @ [backslash, dquote] @ '') b'') @ [dquote] @ '',\<newline>'',
        ''  x,\<newline>'',
        ''  y'' @ CHR '')'' # ''\<newline>''] 0 = 2"
    using inst h(3,4,5,6) by blast
  show ?thesis
    by (intro conjI h r1 r2 r3)
qed

lemma span_lines_single: "span_lines lines i i = [lines ! i]"
  by (simp add: span_lines_def)

text \<open>
  C5 (fail-soft on unterminated statements). When the loop over the lines from
  \<open>start_idx\<close> runs to the end of the input without returning, \<open>find_print_end\<close>
  returns \<open>start_idx\<close>; the rewriter then puts its two markers around that one line and
  goes on with the next line.
\<close>

theorem find_print_end_fail_soft:
  assumes "scan_lines scan_init start_idx (drop start_idx lines) = None"
  shows "find_print_end lines start_idx = start_idx
    \<and> (start_idx < length lines \<and> is_print_line (lines ! start_idx)
        \<and> is_already_wrapped lines start_idx = Inr False
      \<longrightarrow> wrap_loop lines start_idx new_lines changes_made =
          wrap_loop lines (start_idx + 1)
            (new_lines @ [guard_open_line (get_indentation (lines ! start_idx)),
                          lines ! start_idx,
                          guard_close_line (get_indentation (lines ! start_idx))])
            (changes_made + 1))"
proof -
  have e: "find_print_end lines start_idx = start_idx"
    using assms by (simp add: find_print_end_def)
  show ?thesis
    by (subst wrap_loop.simps) (simp add: e span_lines_single)
qed

theorem find_print_end_fail_soft_witness:
  "scan_lines scan_init 0 (drop 0 [''print(a,\<newline>'', ''b\<newline>'']) = None
   \<and> find_print_end [''print(a,\<newline>'', ''b\<newline>''] 0 = 0
   \<and> 0 < length [''print(a,\<newline>'', ''b\<newline>'']
   \<and> is_print_line ([''print(a,\<newline>'', ''b\<newline>''] ! 0)
   \<and> is_already_wrapped [''print(a,\<newline>'', ''b\<newline>''] 0 = Inr False
   \<and> transform_lines [''print(a,\<newline>'', ''b\<newline>''] =
       Inr ([guard_open_line 0, ''print(a,\<newline>'', guard_close_line 0, ''b\<newline>''], 1)"
proof -
  let ?ls = "[''print(a,\<newline>'', ''b\<newline>'']"
  have h: "scan_lines scan_init 0 (drop 0 ?ls) = None"
    by (simp add: scan_init_def scan_char_def backslash_def dquote_def)
  have p: "is_print_line (?ls ! 0)"
    by (simp add: is_print_line_def has_print_call_def print_here_def isspace_def isword_def
        strip_def lstrip_def rstrip_def)
  have w: "is_already_wrapped ?ls 0 = Inr False"
    by (simp add: is_already_wrapped_def backward_window_def)
  have ind: "get_indentation (''print(a,\<newline>'') = 0"
    by (simp add: get_indentation_def lstrip_def isspace_def)
  have rest: "wrap_loop ?ls 1 [guard_open_line 0, ''print(a,\<newline>'', guard_close_line 0] 1 =
      Inr ([guard_open_line 0, ''print(a,\<newline>'', guard_close_line 0, ''b\<newline>''], 1)"
    by code_simp
  from find_print_end_fail_soft [OF h, of "[]" 0] p w ind rest
  have "find_print_end ?ls 0 = 0" and "transform_lines ?ls =
      Inr ([guard_open_line 0, ''print(a,\<newline>'', guard_close_line 0, ''b\<newline>''], 1)"
    by (simp_all add: transform_lines_def)
  with h p w show ?thesis by simp
qed

section \<open>The window scans of \<^verbatim>\<open>is_already_wrapped\<close>\<close>

lemma forward_scan_iff: "forward_scan lines js = (\<exists>j\<in>set js. is_guard_close (lines ! j))"
  by (induction js) auto

lemma forward_window_iff:
  "forward_scan lines (forward_window lines line_idx) =
     (\<exists>j. line_idx < j \<and> j < line_idx + 10 \<and> j < length lines \<and> is_guard_close (lines ! j))"
  by (auto simp: forward_scan_iff forward_window_def Suc_le_eq)

lemma backward_scan_interval:
  "b \<le> length lines \<Longrightarrow>
   backward_scan lines line_idx (rev [a ..< b]) =
     Inr (forward_scan lines (forward_window lines line_idx)
          \<and> (\<exists>i. a \<le> i \<and> i < b \<and> is_guard_open (lines ! i)
                \<and> (\<forall>k. i < k \<and> k < b \<longrightarrow> \<not> is_declaration (lines ! k))))"
proof (induction b)
  case 0
  then show ?case by simp
next
  case (Suc b)
  show ?case
  proof (cases "a \<le> b")
    case False
    then show ?thesis by auto
  next
    case True
    let ?fw = "forward_scan lines (forward_window lines line_idx)"
    have ih: "backward_scan lines line_idx (rev [a ..< b]) =
      Inr (?fw \<and> (\<exists>i. a \<le> i \<and> i < b \<and> is_guard_open (lines ! i)
                \<and> (\<forall>k. i < k \<and> k < b \<longrightarrow> \<not> is_declaration (lines ! k))))"
      using Suc by simp
    have unfold: "rev [a ..< Suc b] = b # rev [a ..< b]"
      using True by simp
    have inr: "b < length lines" using Suc.prems by simp
    show ?thesis
    proof (cases "is_guard_open (lines ! b) \<and> ?fw")
      case t: True
      then show ?thesis using inr True by (auto simp: unfold)
    next
      case f: False
      show ?thesis
      proof (cases "is_declaration (lines ! b)")
        case d: True
        have "\<not> (\<exists>i. a \<le> i \<and> i < Suc b \<and> is_guard_open (lines ! i)
                \<and> (\<forall>k. i < k \<and> k < Suc b \<longrightarrow> \<not> is_declaration (lines ! k)) \<and> ?fw)"
          using d f by (metis less_Suc_eq)
        then show ?thesis using inr f d by (auto simp: unfold)
      next
        case nd: False
        have "(\<exists>i. a \<le> i \<and> i < Suc b \<and> is_guard_open (lines ! i)
                \<and> (\<forall>k. i < k \<and> k < Suc b \<longrightarrow> \<not> is_declaration (lines ! k)) \<and> ?fw)
          = (\<exists>i. a \<le> i \<and> i < b \<and> is_guard_open (lines ! i)
                \<and> (\<forall>k. i < k \<and> k < b \<longrightarrow> \<not> is_declaration (lines ! k)) \<and> ?fw)"
          using nd f by (metis less_Suc_eq)
        then show ?thesis using inr f nd by (auto simp: unfold ih)
      qed
    qed
  qed
qed

text \<open>
  What \<open>is_already_wrapped\<close> computes for an index within the file: a guard-close line
  among the lines \<open>line_idx + 1, \<dots>, line_idx + 9\<close>, and a guard-open line among
  the lines \<open>line_idx - 9, \<dots>, line_idx - 1\<close> other than line 0, with no declaration
  line after it.
\<close>

lemma is_already_wrapped_iff:
  assumes "line_idx \<le> length lines"
  shows "is_already_wrapped lines line_idx =
     Inr ((\<exists>j. line_idx < j \<and> j < line_idx + 10 \<and> j < length lines \<and> is_guard_close (lines ! j))
          \<and> (\<exists>i. line_idx - 10 < i \<and> i < line_idx \<and> is_guard_open (lines ! i)
                \<and> (\<forall>k. i < k \<and> k < line_idx \<longrightarrow> \<not> is_declaration (lines ! k))))"
  unfolding is_already_wrapped_def backward_window_def
  by (simp add: backward_scan_interval [OF assms] forward_window_iff Suc_le_eq)

lemma startswith_hd: "startswith s (p # ps) \<Longrightarrow> s \<noteq> [] \<and> hd s = p"
  by (cases s) auto

lemma declaration_not_guard_open: "is_declaration l \<Longrightarrow> \<not> is_guard_open l"
  by (auto simp: is_declaration_def is_guard_open_def Let_def dest!: startswith_hd)

lemma is_already_wrapped_after_declaration:
  assumes "line_idx \<le> length lines"
    and "line_idx - 10 < d" "d < line_idx" "is_declaration (lines ! d)"
    and "\<forall>k. d < k \<and> k < line_idx \<longrightarrow> \<not> is_guard_open (lines ! k)"
  shows "is_already_wrapped lines line_idx = Inr False"
proof -
  have "\<not> (\<exists>i. line_idx - 10 < i \<and> i < line_idx \<and> is_guard_open (lines ! i)
                \<and> (\<forall>k. i < k \<and> k < line_idx \<longrightarrow> \<not> is_declaration (lines ! k)))"
  proof
    assume "\<exists>i. line_idx - 10 < i \<and> i < line_idx \<and> is_guard_open (lines ! i)
                \<and> (\<forall>k. i < k \<and> k < line_idx \<longrightarrow> \<not> is_declaration (lines ! k))"
    then obtain i where i: "i < line_idx" "is_guard_open (lines ! i)"
      "\<forall>k. i < k \<and> k < line_idx \<longrightarrow> \<not> is_declaration (lines ! k)" by blast
    have "i \<noteq> d" using i(2) assms(4) declaration_not_guard_open by blast
    moreover have "\<not> i < d" using i(3) assms(3,4) by blast
    moreover have "\<not> d < i" using i(1,2) assms(5) by blast
    ultimately show False by arith
  qed
  then show ?thesis by (simp add: is_already_wrapped_iff [OF assms(1)])
qed

section \<open>Single rounds of the rewriting loop\<close>

lemma wrap_loop_pass:
  "i < length lines \<Longrightarrow> \<not> is_print_line (lines ! i) \<Longrightarrow>
   wrap_loop lines i new_lines changes_made =
     wrap_loop lines (Suc i) (new_lines @ [lines ! i]) changes_made"
  by (subst wrap_loop.simps) simp

lemma wrap_loop_skip:
  "i < length lines \<Longrightarrow> is_already_wrapped lines i = Inr True \<Longrightarrow>
   wrap_loop lines i new_lines changes_made =
     wrap_loop lines (Suc i) (new_lines @ [lines ! i]) changes_made"
  by (subst wrap_loop.simps) simp

lemma wrap_loop_wrap:
  "i < length lines \<Longrightarrow> is_print_line (lines ! i) \<Longrightarrow> is_already_wrapped lines i = Inr False \<Longrightarrow>
   wrap_loop lines i new_lines changes_made =
     wrap_loop lines (Suc (find_print_end lines i))
       (new_lines @ guard_open_line (get_indentation (lines ! i))
          # span_lines lines i (find_print_end lines i)
          @ [guard_close_line (get_indentation (lines ! i))])
       (Suc changes_made)"
  by (subst wrap_loop.simps) simp

lemma wrap_loop_done:
  "length lines \<le> i \<Longrightarrow> wrap_loop lines i new_lines changes_made = Inr (new_lines, changes_made)"
  by (subst wrap_loop.simps) simp

lemma scan_line_no_close: "CHR '')'' \<notin> set s \<Longrightarrow> scan_line st s \<noteq> Returned"
  by (induction s arbitrary: st) (auto simp: scan_char_def split: scan_result.splits if_splits)

lemma find_print_end_before_plain_last:
  assumes "CHR '')'' \<notin> set l"
  shows "find_print_end (pre @ [p, l]) (length pre) = length pre"
proof (cases "scan_line scan_init p")
  case Returned
  then show ?thesis by (simp add: find_print_end_def)
next
  case (Continue st')
  obtain st'' where "scan_line st' l = Continue st''"
    using scan_line_no_close [OF assms, of st'] by (cases "scan_line st' l") auto
  with Continue show ?thesis by (simp add: find_print_end_def)
qed

lemma not_print_guard_open_text: "\<not> is_print_line ''#if DEBUG\<newline>''"
  by (simp add: is_print_line_def has_print_call_def print_here_def)

lemma not_print_guard_close_text: "\<not> is_print_line ''#endif\<newline>''"
  by (simp add: is_print_line_def has_print_call_def print_here_def)

lemma transform_guard_declaration_print:
  assumes d: "is_declaration d" "\<not> is_print_line d" and p: "is_print_line p"
  shows "transform_lines [''#if DEBUG\<newline>'', d, p, ''#endif\<newline>''] =
     Inr ([''#if DEBUG\<newline>'', d, guard_open_line (get_indentation p), p,
           guard_close_line (get_indentation p), ''#endif\<newline>''], 1)"
proof -
  let ?ls = "[''#if DEBUG\<newline>'', d, p, ''#endif\<newline>'']"
  have w: "is_already_wrapped ?ls (Suc (Suc 0)) = Inr False"
    by (rule is_already_wrapped_after_declaration [where d = "Suc 0"]) (use d in auto)
  have e: "find_print_end ?ls (Suc (Suc 0)) = Suc (Suc 0)"
    using find_print_end_before_plain_last [of "''#endif\<newline>''" "[''#if DEBUG\<newline>'', d]" p]
    by simp
  have "wrap_loop ?ls 0 [] 0 = wrap_loop ?ls (Suc 0) [''#if DEBUG\<newline>''] 0"
    using not_print_guard_open_text by (subst wrap_loop_pass) simp_all
  also have "\<dots> = wrap_loop ?ls (Suc (Suc 0)) [''#if DEBUG\<newline>'', d] 0"
    using d by (subst wrap_loop_pass) simp_all
  also have "\<dots> = wrap_loop ?ls (Suc (Suc (Suc 0)))
      [''#if DEBUG\<newline>'', d, guard_open_line (get_indentation p), p,
       guard_close_line (get_indentation p)] (Suc 0)"
    using p w e by (subst wrap_loop_wrap) (simp_all add: span_lines_def)
  also have "\<dots> = wrap_loop ?ls (Suc (Suc (Suc (Suc 0))))
      [''#if DEBUG\<newline>'', d, guard_open_line (get_indentation p), p,
       guard_close_line (get_indentation p), ''#endif\<newline>''] (Suc 0)"
    using not_print_guard_close_text by (subst wrap_loop_pass) simp_all
  also have "\<dots> = Inr ([''#if DEBUG\<newline>'', d, guard_open_line (get_indentation p), p,
       guard_close_line (get_indentation p), ''#endif\<newline>''], Suc 0)"
    by (subst wrap_loop_done) simp_all
  finally show ?thesis
    by (simp add: transform_lines_def)
qed

text \<open>
  C6 (declaration-boundary abort). When the backward scan from a candidate line meets a
  declaration line (it stands in the scanned window and no scanned line after it is a
  guard-open line), \<open>is_already_wrapped\<close> answers "not wrapped". In particular the input
  "guard-open marker, declaration line, print statement, guard-close marker" comes out
  with the print statement inside a new guard pair of its own.
\<close>

theorem declaration_boundary_abort:
  "(line_idx < length lines \<and> line_idx - 10 < d \<and> d < line_idx \<and> is_declaration (lines ! d)
      \<and> (\<forall>k. d < k \<and> k < line_idx \<longrightarrow> \<not> is_guard_open (lines ! k))
     \<longrightarrow> is_already_wrapped lines line_idx = Inr False)
   \<and> (is_declaration decl \<and> \<not> is_print_line decl \<and> is_print_line p
     \<longrightarrow> transform_lines [''#if DEBUG\<newline>'', decl, p, ''#endif\<newline>''] =
          Inr ([''#if DEBUG\<newline>'', decl, guard_open_line (get_indentation p), p,
                guard_close_line (get_indentation p), ''#endif\<newline>''], 1))"
  using is_already_wrapped_after_declaration [of line_idx lines d]
    transform_guard_declaration_print [of decl p]
  by (simp add: less_imp_le)

theorem declaration_boundary_abort_witness:
  "4 < length declaration_between \<and> 4 - 10 < (2::nat) \<and> (2::nat) < 4
   \<and> is_declaration (declaration_between ! 2)
   \<and> \<not> is_guard_open (declaration_between ! 3)
   \<and> is_guard_open (declaration_between ! 1)
   \<and> is_already_wrapped declaration_between 4 = Inr False
   \<and> is_declaration ''func f() {\<newline>'' \<and> \<not> is_print_line ''func f() {\<newline>''
   \<and> is_print_line ''  print(x)\<newline>''
   \<and> transform_lines [''#if DEBUG\<newline>'', ''func f() {\<newline>'', ''  print(x)\<newline>'', ''#endif\<newline>''] =
       Inr ([''#if DEBUG\<newline>'', ''func f() {\<newline>'', ''  #if DEBUG\<newline>'', ''  print(x)\<newline>'',
             ''  #endif\<newline>'', ''#endif\<newline>''], 1)"
proof -
  have h1: "4 < length declaration_between" "4 - 10 < (2::nat)" "(2::nat) < 4"
    "is_declaration (declaration_between ! 2)" "\<not> is_guard_open (declaration_between ! 3)"
    "is_guard_open (declaration_between ! 1)"
    by code_simp+
  have between: "\<forall>k. 2 < k \<and> k < 4 \<longrightarrow> \<not> is_guard_open (declaration_between ! k)"
  proof (intro allI impI)
    fix k :: nat
    assume "2 < k \<and> k < 4"
    then have "k = 3" by arith
    with h1(5) show "\<not> is_guard_open (declaration_between ! k)" by simp
  qed
  have h2: "is_declaration ''func f() {\<newline>''" "\<not> is_print_line ''func f() {\<newline>''"
    "is_print_line ''  print(x)\<newline>''"
    by code_simp+
  have ind: "get_indentation ''  print(x)\<newline>'' = 2"
    "guard_open_line 2 = ''  #if DEBUG\<newline>''" "guard_close_line 2 = ''  #endif\<newline>''"
    by code_simp+
  from declaration_boundary_abort
    [of 4 declaration_between 2 "''func f() {\<newline>''" "''  print(x)\<newline>''"]
    h1 between h2
  have r1: "is_already_wrapped declaration_between 4 = Inr False"
    and r2: "transform_lines [''#if DEBUG\<newline>'', ''func f() {\<newline>'', ''  print(x)\<newline>'', ''#endif\<newline>''] =
       Inr ([''#if DEBUG\<newline>'', ''func f() {\<newline>'',
             guard_open_line (get_indentation ''  print(x)\<newline>''), ''  print(x)\<newline>'',
             guard_close_line (get_indentation ''  print(x)\<newline>''), ''#endif\<newline>''], 1)"
    by blast+
  have r3: "transform_lines [''#if DEBUG\<newline>'', ''func f() {\<newline>'', ''  print(x)\<newline>'', ''#endif\<newline>''] =
       Inr ([''#if DEBUG\<newline>'', ''func f() {\<newline>'', ''  #if DEBUG\<newline>'', ''  print(x)\<newline>'',
             ''  #endif\<newline>'', ''#endif\<newline>''], 1)"
    using r2 by (simp only: ind)
  show ?thesis
    by (intro conjI h1 h2 r1 r3)
qed

text \<open>
  C7 (bounded 10-line windows), evaluated. A guarded print at the top of a file is
  reported as not wrapped, and the rewriter wraps it a second time: line 0 is never read.
  A guard-open marker ten lines before the print is not seen, one nine lines before it
  is; a guard-close marker ten lines after the print is not seen, one nine lines after it
  is.
\<close>

theorem is_already_wrapped_windows_evaluated:
  "is_already_wrapped guarded_at_top 1 = Inr False
   \<and> transform_lines guarded_at_top =
       Inr ([''#if DEBUG\<newline>'', ''#if DEBUG\<newline>'', ''print(x)\<newline>'', ''#endif\<newline>'',
             ''#endif\<newline>''], 1)
   \<and> is_already_wrapped guard_ten_back 11 = Inr False
   \<and> is_already_wrapped guard_nine_back 11 = Inr True
   \<and> is_already_wrapped close_ten_ahead 2 = Inr False
   \<and> is_already_wrapped close_nine_ahead 2 = Inr True"
  by code_simp

text \<open>
  C10 (the detector accepts unpaired markers). Any guard-open line in the backward window
  with no declaration line between it and the candidate, together with any guard-close
  line in the forward window, makes \<open>is_already_wrapped\<close> answer "wrapped"; nothing
  relates the two markers to each other or to the candidate. In \<open>unpaired_markers\<close>
  the print at index 4 is enclosed by no guard (the guard opened before it is closed
  before it, the next one opens after it, and both are indented otherwise), and it is
  reported as wrapped.
\<close>

theorem is_already_wrapped_accepts_unpaired:
  "(line_idx < length lines
      \<and> line_idx - 10 < i \<and> i < line_idx \<and> is_guard_open (lines ! i)
      \<and> (\<forall>k. i < k \<and> k < line_idx \<longrightarrow> \<not> is_declaration (lines ! k))
      \<and> line_idx < j \<and> j < line_idx + 10 \<and> j < length lines \<and> is_guard_close (lines ! j)
     \<longrightarrow> is_already_wrapped lines line_idx = Inr True)
   \<and> is_print_line (unpaired_markers ! 4)
   \<and> guards_open_after 0 (take 4 unpaired_markers) = 0
   \<and> is_already_wrapped unpaired_markers 4 = Inr True"
proof -
  have general: "line_idx < length lines
      \<and> line_idx - 10 < i \<and> i < line_idx \<and> is_guard_open (lines ! i)
      \<and> (\<forall>k. i < k \<and> k < line_idx \<longrightarrow> \<not> is_declaration (lines ! k))
      \<and> line_idx < j \<and> j < line_idx + 10 \<and> j < length lines \<and> is_guard_close (lines ! j)
     \<longrightarrow> is_already_wrapped lines line_idx = Inr True"
  proof
    assume a: "line_idx < length lines
      \<and> line_idx - 10 < i \<and> i < line_idx \<and> is_guard_open (lines ! i)
      \<and> (\<forall>k. i < k \<and> k < line_idx \<longrightarrow> \<not> is_declaration (lines ! k))
      \<and> line_idx < j \<and> j < line_idx + 10 \<and> j < length lines \<and> is_guard_close (lines ! j)"
    then have le: "line_idx \<le> length lines" by simp
    have c: "\<exists>j. line_idx < j \<and> j < line_idx + 10 \<and> j < length lines \<and> is_guard_close (lines ! j)"
      using a by (intro exI [of _ j]) simp
    have o: "\<exists>i. line_idx - 10 < i \<and> i < line_idx \<and> is_guard_open (lines ! i)
                \<and> (\<forall>k. i < k \<and> k < line_idx \<longrightarrow> \<not> is_declaration (lines ! k))"
      using a by (intro exI [of _ i]) simp
    show "is_already_wrapped lines line_idx = Inr True"
      by (simp only: is_already_wrapped_iff [OF le] c o simp_thms)
  qed
  have "is_print_line (unpaired_markers ! 4)"
    "guards_open_after 0 (take 4 unpaired_markers) = 0"
    "is_already_wrapped unpaired_markers 4 = Inr True"
    by code_simp+
  with general show ?thesis by blast
qed

theorem is_already_wrapped_accepts_unpaired_witness:
  "4 < length unpaired_markers \<and> 4 - 10 < (1::nat) \<and> (1::nat) < 4
   \<and> is_guard_open (unpaired_markers ! 1)
   \<and> \<not> is_declaration (unpaired_markers ! 2) \<and> \<not> is_declaration (unpaired_markers ! 3)
   \<and> (4::nat) < 7 \<and> (7::nat) < 4 + 10 \<and> 7 < length unpaired_markers
   \<and> is_guard_close (unpaired_markers ! 7)
   \<and> is_already_wrapped unpaired_markers 4 = Inr True"
proof -
  have h: "4 < length unpaired_markers" "4 - 10 < (1::nat)" "(1::nat) < 4"
    "is_guard_open (unpaired_markers ! 1)"
    "\<not> is_declaration (unpaired_markers ! 2)" "\<not> is_declaration (unpaired_markers ! 3)"
    "(4::nat) < 7" "(7::nat) < 4 + 10" "7 < length unpaired_markers"
    "is_guard_close (unpaired_markers ! 7)"
    by code_simp+
  have between: "\<forall>k. 1 < k \<and> k < 4 \<longrightarrow> \<not> is_declaration (unpaired_markers ! k)"
  proof (intro allI impI)
    fix k :: nat
    assume "1 < k \<and> k < 4"
    then have "k = 2 \<or> k = 3" by arith
    with h(5,6) show "\<not> is_declaration (unpaired_markers ! k)" by auto
  qed
  from is_already_wrapped_accepts_unpaired [of 4 unpaired_markers 1 7] h between
  have r: "is_already_wrapped unpaired_markers 4 = Inr True" by blast
  show ?thesis
    by (intro conjI h r)
qed

section \<open>The statement end\<close>

lemma scan_lines_skip:
  "scan_line st (concat a) = Continue st' \<Longrightarrow>
   scan_lines st idx (a @ b) = scan_lines st' (idx + length a) b"
proof (induction a arbitrary: st idx)
  case Nil
  then show ?case by simp
next
  case (Cons l a)
  from Cons.prems obtain st1 where l: "scan_line st l = Continue st1"
    and a: "scan_line st1 (concat a) = Continue st'"
    by (auto simp: scan_line_append split: scan_result.splits)
  from Cons.IH [OF a, of "Suc idx"] l show ?case by simp
qed

text \<open>
  What the scan computes: the index of the first line, from the start index on, that
  holds a closing parenthesis read outside a quoted region, not escaped, at depth 1. The
  scan starts at the head of the start line, not at the print token, and returns at that
  parenthesis, whatever follows it on the line.
\<close>

lemma find_print_end_first_close:
  assumes "start_idx \<le> e" "e < length lines"
    and earlier: "scan_line scan_init (concat (take (e - start_idx) (drop start_idx lines))) = Continue st"
    and line: "lines ! e = before @ CHR '')'' # after"
    and before: "scan_line st before = Continue st'"
    and st': "paren_count st' = 1" "\<not> in_string st'" "\<not> escape_next st'"
  shows "find_print_end lines start_idx = e"
proof -
  let ?ls = "drop start_idx lines"
  let ?n = "e - start_idx"
  have n: "?n < length ?ls" using assms(1,2) by simp
  have nth: "?ls ! ?n = lines ! e"
    using assms(1,2) by simp
  have split: "?ls = take ?n ?ls @ (lines ! e) # drop (Suc ?n) ?ls"
    using id_take_nth_drop [OF n] by (simp only: nth)
  have ret: "scan_line st (lines ! e) = Returned"
    using before scan_line_close [OF st'(3) st'(2) st'(1), of after]
    by (simp add: line scan_line_append del: scan_line.simps)
  have len: "length (take ?n ?ls) = ?n" using n by simp
  have "scan_lines scan_init start_idx ?ls =
      scan_lines scan_init start_idx (take ?n ?ls @ (lines ! e) # drop (Suc ?n) ?ls)"
    using split by simp
  also have "\<dots> = scan_lines st (start_idx + ?n) ((lines ! e) # drop (Suc ?n) ?ls)"
    using scan_lines_skip [OF earlier] len by simp
  also have "\<dots> = Some e"
    using ret assms(1) by simp
  finally show ?thesis by (simp add: find_print_end_def)
qed

text \<open>
  C4 (statement-end rule), evaluated. On the first line of \<open>call_before_print\<close> the
  depth touches zero after \<^verbatim>\<open>ok()\<close> and is 1 again at the end of the line. The rule
  of the specification gives line 1, where the print statement ends;
  \<open>find_print_end\<close> returns line 0, and the rewriter closes its guard between the two
  lines of the print statement.
\<close>

theorem find_print_end_stops_inside_statement:
  "find_print_end call_before_print 0 = 0
   \<and> spec_statement_end call_before_print 0 = 1
   \<and> transform_lines call_before_print =
       Inr ([''#if DEBUG\<newline>'', ''if ok() { print('' @ [dquote] @ ''a'' @ [dquote] @ '',\<newline>'',
             ''#endif\<newline>'', ''  b) }\<newline>''], 1)"
  by code_simp

section \<open>The marker lines\<close>

lemma isspace_space: "isspace CHR '' ''"
  by (simp add: isspace_def)

lemma lstrip_indented: "\<not> isspace c \<Longrightarrow> lstrip (replicate n CHR '' '' @ c # s) = c # s"
  unfolding lstrip_def by (subst dropWhile_append2) (simp_all add: isspace_space)

lemma get_indentation_indented:
  "\<not> isspace c \<Longrightarrow> get_indentation (replicate n CHR '' '' @ c # s) = n"
  by (simp add: get_indentation_def lstrip_indented)

lemma get_indentation_guard_open: "get_indentation (guard_open_line n) = n"
  unfolding guard_open_line_def
  using get_indentation_indented [of "CHR ''#''" n "''if DEBUG\<newline>''"]
  by (simp add: isspace_def)

lemma get_indentation_guard_close: "get_indentation (guard_close_line n) = n"
  unfolding guard_close_line_def
  using get_indentation_indented [of "CHR ''#''" n "''endif\<newline>''"]
  by (simp add: isspace_def)

section \<open>The output of the rewriting loop\<close>

lemma is_already_wrapped_total:
  "i \<le> length lines \<Longrightarrow> is_already_wrapped lines i = Inr True \<or> is_already_wrapped lines i = Inr False"
proof -
  assume "i \<le> length lines"
  then obtain b where "is_already_wrapped lines i = Inr b"
    by (simp add: is_already_wrapped_iff)
  then show ?thesis by (cases b) simp_all
qed

lemma segments_end: "length lines \<le> i \<Longrightarrow> segments lines i = []"
  by (subst segments.simps) simp

lemma segments_guarded:
  "i < length lines \<Longrightarrow> is_print_line (lines ! i) \<Longrightarrow> is_already_wrapped lines i = Inr False \<Longrightarrow>
   segments lines i =
     Guarded (get_indentation (lines ! i)) (span_lines lines i (find_print_end lines i))
       # segments lines (Suc (find_print_end lines i))"
  by (subst segments.simps) simp

lemma segments_plain:
  "i < length lines \<Longrightarrow> \<not> (is_print_line (lines ! i) \<and> is_already_wrapped lines i = Inr False) \<Longrightarrow>
   segments lines i = Plain (lines ! i) # segments lines (Suc i)"
  by (subst segments.simps) simp

lemma wrap_loop_segments:
  "wrap_loop lines i new_lines changes_made =
     Inr (new_lines @ concat (map render (segments lines i)),
          changes_made + length (filter is_guarded (segments lines i)))"
proof (induction lines i arbitrary: new_lines changes_made rule: segments.induct)
  case (1 lines i)
  show ?case
  proof (cases "i < length lines")
    case False
    then show ?thesis by (simp add: wrap_loop_done segments_end)
  next
    case True
    show ?thesis
    proof (cases "is_print_line (lines ! i) \<and> is_already_wrapped lines i = Inr False")
      case wrap: True
      then show ?thesis
        using True "1.IH"(1) [OF True wrap]
        by (simp add: wrap_loop_wrap segments_guarded)
    next
      case plain: False
      have step: "wrap_loop lines i new_lines changes_made =
          wrap_loop lines (Suc i) (new_lines @ [lines ! i]) changes_made"
      proof (cases "is_print_line (lines ! i)")
        case False
        then show ?thesis using True by (simp add: wrap_loop_pass)
      next
        case p: True
        with plain is_already_wrapped_total [of i lines] True
        have "is_already_wrapped lines i = Inr True" by auto
        then show ?thesis using True by (simp add: wrap_loop_skip)
      qed
      show ?thesis
        using True "1.IH"(2) [OF True plain]
        by (simp add: step segments_plain [OF True plain])
    qed
  qed
qed

lemma span_lines_take_drop:
  assumes "e < length lines"
  shows "span_lines lines i e = take (Suc e - i) (drop i lines)"
proof (rule nth_equalityI)
  show "length (span_lines lines i e) = length (take (Suc e - i) (drop i lines))"
    using assms by (auto simp: span_lines_def)
next
  fix k
  assume "k < length (span_lines lines i e)"
  then have k: "k < Suc e - i" by (simp add: span_lines_def del: upt_Suc)
  then have "span_lines lines i e ! k = lines ! (i + k)"
    unfolding span_lines_def by (simp add: nth_map_upt del: upt_Suc)
  moreover have "take (Suc e - i) (drop i lines) ! k = lines ! (i + k)"
    using k assms by simp
  ultimately show "span_lines lines i e ! k = take (Suc e - i) (drop i lines) ! k"
    by simp
qed

lemma span_then_rest:
  assumes "i \<le> e" "e < length lines"
  shows "span_lines lines i e @ drop (Suc e) lines = drop i lines"
proof -
  have "drop (Suc e) lines = drop (Suc e - i) (drop i lines)"
    using assms by simp
  then show ?thesis
    by (simp only: span_lines_take_drop [OF assms(2)] append_take_drop_id)
qed

lemma segments_original: "concat (map original (segments lines i)) = drop i lines"
proof (induction lines i rule: segments.induct)
  case (1 lines i)
  show ?case
  proof (cases "i < length lines")
    case False
    then show ?thesis by (simp add: segments_end)
  next
    case True
    show ?thesis
    proof (cases "is_print_line (lines ! i) \<and> is_already_wrapped lines i = Inr False")
      case wrap: True
      have "span_lines lines i (find_print_end lines i) @ drop (Suc (find_print_end lines i)) lines
          = drop i lines"
        using True by (intro span_then_rest find_print_end_ge find_print_end_less)
      then show ?thesis
        using True wrap "1.IH"(1) [OF True wrap] by (simp add: segments_guarded)
    next
      case plain: False
      show ?thesis
        using True "1.IH"(2) [OF True plain]
        by (simp add: segments_plain [OF True plain] Cons_nth_drop_Suc)
    qed
  qed
qed

lemma render_subseq: "subseq (concat (map original segs)) (concat (map render segs))"
proof (induction segs)
  case Nil
  then show ?case by simp
next
  case (Cons s segs)
  show ?case
  proof (cases s)
    case (Plain l)
    with Cons show ?thesis by simp
  next
    case (Guarded n body)
    have "subseq (concat (map original segs)) (guard_close_line n # concat (map render segs))"
      using subseq_drop_many [OF Cons, of "[guard_close_line n]"] by simp
    then have "subseq (body @ concat (map original segs))
        (body @ guard_close_line n # concat (map render segs))"
      by (simp add: subseq_append')
    from subseq_drop_many [OF this, of "[guard_open_line n]"]
    show ?thesis using Guarded by simp
  qed
qed

lemma render_mset:
  "mset (concat (map render segs)) =
     mset (concat (map original segs)) + mset (concat (map inserted segs))"
proof (induction segs)
  case Nil
  then show ?case by simp
next
  case (Cons s segs)
  then show ?case by (cases s) simp_all
qed

lemma inserted_length: "length (concat (map inserted segs)) = 2 * length (filter is_guarded segs)"
proof (induction segs)
  case Nil
  then show ?case by simp
next
  case (Cons s segs)
  then show ?case by (cases s) simp_all
qed

lemma inserted_markers: "\<forall>m\<in>set (concat (map inserted segs)). inserted_marker m"
proof (induction segs)
  case Nil
  then show ?case by simp
next
  case (Cons s segs)
  then show ?case by (cases s) (auto simp: inserted_marker_def get_indentation_guard_open get_indentation_guard_close)
qed

text \<open>
  The list \<open>new_lines\<close> that the loop builds holds the lines that were read as a
  subsequence (every line, in the original order), and what it holds beyond them, counted
  with multiplicity, are two marker lines for each wrapped statement.
\<close>

lemma transform_preserves_lines:
  "\<exists>out n ms. transform_lines lines = Inr (out, n)
     \<and> subseq lines out
     \<and> mset out = mset lines + mset ms
     \<and> length ms = 2 * n
     \<and> (\<forall>m\<in>set ms. inserted_marker m)"
proof -
  let ?segs = "segments lines 0"
  have t: "transform_lines lines =
      Inr (concat (map render ?segs), length (filter is_guarded ?segs))"
    by (simp add: transform_lines_def wrap_loop_segments)
  have o: "concat (map original ?segs) = lines"
    by (simp add: segments_original)
  have "subseq lines (concat (map render ?segs))"
    using render_subseq [of ?segs] by (simp only: o)
  moreover have "mset (concat (map render ?segs)) = mset lines + mset (concat (map inserted ?segs))"
    using render_mset [of ?segs] by (simp only: o)
  ultimately show ?thesis
    using t inserted_length [of ?segs] inserted_markers [of ?segs] by (intro exI conjI)
qed

lemma segments_all_plain:
  "(\<forall>k. i \<le> k \<and> k < length lines
      \<longrightarrow> \<not> (is_print_line (lines ! k) \<and> is_already_wrapped lines k = Inr False)) \<Longrightarrow>
   segments lines i = map Plain (drop i lines)"
proof (induction lines i rule: segments.induct)
  case (1 lines i)
  show ?case
  proof (cases "i < length lines")
    case False
    then show ?thesis by (simp add: segments_end)
  next
    case True
    have plain: "\<not> (is_print_line (lines ! i) \<and> is_already_wrapped lines i = Inr False)"
      using "1.prems" True by simp
    have "\<forall>k. Suc i \<le> k \<and> k < length lines
        \<longrightarrow> \<not> (is_print_line (lines ! k) \<and> is_already_wrapped lines k = Inr False)"
      using "1.prems" by simp
    from "1.IH"(2) [OF True plain this]
    have rest: "segments lines (Suc i) = map Plain (drop (Suc i) lines)" .
    have "drop i lines = lines ! i # drop (Suc i) lines"
      using True by (simp add: Cons_nth_drop_Suc)
    then show ?thesis
      by (simp add: segments_plain [OF True plain] rest)
  qed
qed

lemma render_all_plain: "concat (map (render \<circ> Plain) ls) = ls"
  by (induction ls) simp_all

lemma guarded_all_plain: "filter (is_guarded \<circ> Plain) ls = []"
  by (induction ls) simp_all

lemma transform_nothing_to_wrap:
  assumes "\<forall>k. k < length lines
      \<longrightarrow> \<not> (is_print_line (lines ! k) \<and> is_already_wrapped lines k = Inr False)"
  shows "transform_lines lines = Inr (lines, 0)"
proof -
  have "segments lines 0 = map Plain (drop 0 lines)"
    using assms by (intro segments_all_plain) simp
  then show ?thesis
    by (simp add: transform_lines_def wrap_loop_segments render_all_plain guarded_all_plain
        filter_map)
qed

text \<open>
  A line whose stripped text begins with \<^verbatim>\<open>//\<close> is passed on unchanged when the
  loop reaches it; a file in which every line that holds the print token is such a line
  comes out unchanged, with count 0.
\<close>

lemma comment_line_not_wrapped:
  "(i < length lines \<and> startswith (strip (lines ! i)) ''//''
      \<longrightarrow> wrap_loop lines i new_lines changes_made =
          wrap_loop lines (i + 1) (new_lines @ [lines ! i]) changes_made)
   \<and> ((\<forall>l\<in>set lines. has_print_call l \<longrightarrow> startswith (strip l) ''//'')
      \<longrightarrow> transform_lines lines = Inr (lines, 0))"
proof (intro conjI impI)
  assume "i < length lines \<and> startswith (strip (lines ! i)) ''//''"
  then show "wrap_loop lines i new_lines changes_made =
      wrap_loop lines (i + 1) (new_lines @ [lines ! i]) changes_made"
    by (simp add: wrap_loop_pass is_print_line_def)
next
  assume a: "\<forall>l\<in>set lines. has_print_call l \<longrightarrow> startswith (strip l) ''//''"
  have "\<forall>k. k < length lines
      \<longrightarrow> \<not> (is_print_line (lines ! k) \<and> is_already_wrapped lines k = Inr False)"
    using a by (auto simp: is_print_line_def)
  then show "transform_lines lines = Inr (lines, 0)"
    by (rule transform_nothing_to_wrap)
qed

text \<open>
  C8 (line-comment exclusion), evaluated. The only print token of
  \<open>trailing_comment_print\<close> stands inside a line comment that follows code; the line
  holds no print statement, and it is wrapped: the assignment before the comment ends up
  under the guard.
\<close>

theorem trailing_comment_line_wrapped:
  "\<not> startswith (strip (trailing_comment_print ! 0)) ''//''
   \<and> transform_lines trailing_comment_print =
       Inr ([''#if DEBUG\<newline>'', ''let x = 1 // print(x)\<newline>'', ''#endif\<newline>''], 1)
   \<and> wrap_prints_in_file (Inr ''let x = 1 // print(x)\<newline>'') True =
       Inr (Written ''#if DEBUG\<newline>let x = 1 // print(x)\<newline>#endif\<newline>'', 1)"
  by code_simp

section \<open>Guard pairing\<close>

lemma strip_guard_open: "strip (guard_open_line n) = ''#if DEBUG''"
  unfolding strip_def guard_open_line_def
  using lstrip_indented [of "CHR ''#''" n "''if DEBUG\<newline>''"]
  by (simp add: isspace_def rstrip_def)

lemma strip_guard_close: "strip (guard_close_line n) = ''#endif''"
  unfolding strip_def guard_close_line_def
  using lstrip_indented [of "CHR ''#''" n "''endif\<newline>''"]
  by (simp add: isspace_def rstrip_def)

lemma guard_open_line_kind: "is_guard_open (guard_open_line n)" "\<not> is_guard_close (guard_open_line n)"
  by (simp_all add: is_guard_open_def is_guard_close_def strip_guard_open)

lemma guard_close_line_kind: "is_guard_close (guard_close_line n)" "\<not> is_guard_open (guard_close_line n)"
  by (simp_all add: is_guard_open_def is_guard_close_def strip_guard_close)

lemma guard_lines_are_markers: "is_marker (guard_open_line n)" "is_marker (guard_close_line n)"
  by (simp_all add: is_marker_def guard_open_line_kind guard_close_line_kind)

lemma search_from_spaces:
  "search_from b (replicate n CHR '' '' @ s) = search_from (if n = 0 then b else False) s"
proof (induction n arbitrary: b)
  case 0
  then show ?case by simp
next
  case (Suc n)
  have "\<not> print_here (CHR '' '' # replicate n CHR '' '' @ s)"
    by (simp add: print_here_def)
  moreover have "\<not> isword CHR '' ''"
    by (simp add: isword_def)
  ultimately show ?case
    using Suc [of False] by (cases n) simp_all
qed

lemma not_print_guard_open_line: "\<not> is_print_line (guard_open_line n)"
  by (simp add: is_print_line_def has_print_call_def guard_open_line_def search_from_spaces
      print_here_def)

lemma not_print_guard_close_line: "\<not> is_print_line (guard_close_line n)"
  by (simp add: is_print_line_def has_print_call_def guard_close_line_def search_from_spaces
      print_here_def)

lemma guards_paired_body:
  "\<forall>l\<in>set body. \<not> is_marker l \<Longrightarrow>
   guards_paired (Inside n) (body @ guard_close_line n # rest) = guards_paired Outside rest"
  by (induction body)
    (simp_all add: is_marker_def guard_close_line_kind get_indentation_guard_close)

lemma guards_paired_render:
  "\<forall>s\<in>set segs. paired_segment s \<Longrightarrow> guards_paired Outside (concat (map render segs))"
proof (induction segs)
  case Nil
  then show ?case by simp
next
  case (Cons s segs)
  then have rest: "guards_paired Outside (concat (map render segs))" by simp
  show ?case
  proof (cases s)
    case (Plain l)
    with Cons.prems rest show ?thesis by (simp add: is_marker_def)
  next
    case (Guarded n body)
    with Cons.prems obtain l ls where body: "body = l # ls"
      and n: "get_indentation l = n" and nm: "\<forall>x\<in>set (l # ls). \<not> is_marker x"
      by (cases body) auto
    have "guards_paired (Inside n) (ls @ guard_close_line n # concat (map render segs))"
      using nm rest by (simp add: guards_paired_body)
    then show ?thesis
      using Guarded body n nm
      by (simp add: guard_open_line_kind get_indentation_guard_open)
  qed
qed

lemma filter_no_marker: "\<forall>l\<in>set body. \<not> is_marker l \<Longrightarrow> filter is_marker body = []"
  by (induction body) simp_all

lemma markers_render:
  "\<forall>s\<in>set segs. paired_segment s \<Longrightarrow>
   map is_guard_open (filter is_marker (concat (map render segs))) =
     concat (replicate (length (filter is_guarded segs)) [True, False])"
proof (induction segs)
  case Nil
  then show ?case by simp
next
  case (Cons s segs)
  then have rest: "map is_guard_open (filter is_marker (concat (map render segs))) =
     concat (replicate (length (filter is_guarded segs)) [True, False])" by simp
  show ?case
  proof (cases s)
    case (Plain l)
    with Cons.prems rest show ?thesis by simp
  next
    case (Guarded n body)
    with Cons.prems have "filter is_marker body = []"
      by (intro filter_no_marker) simp
    then show ?thesis
      using Guarded rest
      by (simp add: guard_lines_are_markers guard_open_line_kind guard_close_line_kind)
  qed
qed

lemma unmarked_not_wrapped:
  assumes "\<forall>l\<in>set lines. \<not> is_marker l" "i \<le> length lines"
  shows "is_already_wrapped lines i = Inr False"
proof -
  have "\<not> (\<exists>j. i < j \<and> j < i + 10 \<and> j < length lines \<and> is_guard_close (lines ! j))"
    using assms(1) by (auto simp: is_marker_def)
  then show ?thesis
    by (simp add: is_already_wrapped_iff [OF assms(2)])
qed

lemma span_lines_subset:
  assumes "e < length lines"
  shows "set (span_lines lines i e) \<subseteq> set lines"
  unfolding span_lines_take_drop [OF assms]
  by (meson set_take_subset set_drop_subset subset_trans)

lemma span_lines_hd:
  assumes "i \<le> e" "e < length lines"
  shows "span_lines lines i e \<noteq> [] \<and> hd (span_lines lines i e) = lines ! i"
  using assms unfolding span_lines_take_drop [OF assms(2)]
  by (simp add: hd_drop_conv_nth)

lemma segments_paired:
  "\<forall>l\<in>set lines. \<not> is_marker l \<Longrightarrow> \<forall>s\<in>set (segments lines i). paired_segment s"
proof (induction lines i rule: segments.induct)
  case (1 lines i)
  show ?case
  proof (cases "i < length lines")
    case False
    then show ?thesis by (simp add: segments_end)
  next
    case True
    show ?thesis
    proof (cases "is_print_line (lines ! i) \<and> is_already_wrapped lines i = Inr False")
      case wrap: True
      let ?e = "find_print_end lines i"
      have e: "i \<le> ?e" "?e < length lines"
        using True by (simp_all add: find_print_end_ge find_print_end_less)
      have "paired_segment (Guarded (get_indentation (lines ! i)) (span_lines lines i ?e))"
        using span_lines_hd [OF e] span_lines_subset [OF e(2), of i] "1.prems" by auto
      then show ?thesis
        using True wrap "1.IH"(1) [OF True wrap "1.prems"] by (simp add: segments_guarded)
    next
      case plain: False
      have "paired_segment (Plain (lines ! i))"
        using True "1.prems" by simp
      then show ?thesis
        using "1.IH"(2) [OF True plain "1.prems"] by (simp add: segments_plain [OF True plain])
    qed
  qed
qed

text \<open>
  In the list \<open>new_lines\<close> that the loop builds from lines without markers, the markers
  are paired, and the marker lines, in order, are \<open>n\<close> times "open, close", \<open>n\<close>
  being the returned count.
\<close>

lemma new_lines_guards_paired:
  assumes "\<forall>l\<in>set lines. \<not> is_marker l"
  shows "\<exists>out n. transform_lines lines = Inr (out, n)
     \<and> guards_paired Outside out
     \<and> map is_guard_open (filter is_marker out) = concat (replicate n [True, False])"
proof -
  let ?segs = "segments lines 0"
  have t: "transform_lines lines =
      Inr (concat (map render ?segs), length (filter is_guarded ?segs))"
    by (simp add: transform_lines_def wrap_loop_segments)
  have wf: "\<forall>s\<in>set ?segs. paired_segment s"
    using assms by (rule segments_paired)
  show ?thesis
    using t guards_paired_render [OF wf] markers_render [OF wf] by (intro exI conjI)
qed

section \<open>A second run\<close>

lemma nth_in_block:
  "(A @ x # body @ y # B) ! length A = x"
  "u < length body \<Longrightarrow> (A @ x # body @ y # B) ! (length A + Suc u) = body ! u"
  "(A @ x # body @ y # B) ! (length A + Suc (length body)) = y"
  by (simp_all add: nth_append)

lemma block_wrapped:
  assumes A: "A \<noteq> []" and len: "length body \<le> 9" and t: "t < length body"
    and nodecl: "\<forall>u<t. \<not> is_declaration (body ! u)"
  shows "is_already_wrapped (A @ guard_open_line n # body @ guard_close_line n # B)
           (length A + Suc t) = Inr True"
proof -
  let ?xs = "A @ guard_open_line n # body @ guard_close_line n # B"
  let ?k = "length A + Suc t"
  have le: "?k \<le> length ?xs" using t by simp
  have cl: "\<exists>j. ?k < j \<and> j < ?k + 10 \<and> j < length ?xs \<and> is_guard_close (?xs ! j)"
  proof (intro exI [of _ "length A + Suc (length body)"] conjI)
    show "is_guard_close (?xs ! (length A + Suc (length body)))"
      by (simp only: nth_in_block(3) guard_close_line_kind)
  qed (use t len in simp_all)
  have op: "\<exists>i. ?k - 10 < i \<and> i < ?k \<and> is_guard_open (?xs ! i)
      \<and> (\<forall>k'. i < k' \<and> k' < ?k \<longrightarrow> \<not> is_declaration (?xs ! k'))"
  proof (intro exI [of _ "length A"] conjI allI impI)
    show "?k - 10 < length A" using A t len by (cases A) simp_all
    show "length A < ?k" by simp
    show "is_guard_open (?xs ! length A)"
      by (simp only: nth_in_block(1) guard_open_line_kind)
    fix k'
    assume "length A < k' \<and> k' < ?k"
    then obtain u where u: "k' = length A + Suc u" "u < t"
      by (metis Suc_less_eq less_imp_Suc_add nat_add_left_cancel_less add_Suc_right)
    then have "?xs ! k' = body ! u" using t by (simp only: nth_in_block(2))
    with nodecl u show "\<not> is_declaration (?xs ! k')" by simp
  qed
  show ?thesis
    by (simp only: is_already_wrapped_iff [OF le] cl op simp_thms)
qed

lemma rendered_prints_wrapped:
  assumes "\<forall>s\<in>set segs. idempotent_segment s"
    and "A = [] \<longrightarrow> (case segs of [] \<Rightarrow> True | s # _ \<Rightarrow> \<not> is_guarded s)"
  shows "\<forall>k. length A \<le> k \<and> k < length (A @ concat (map render segs))
            \<and> is_print_line ((A @ concat (map render segs)) ! k)
          \<longrightarrow> is_already_wrapped (A @ concat (map render segs)) k = Inr True"
  using assms
proof (induction segs arbitrary: A)
  case Nil
  show ?case by auto
next
  case (Cons s segs)
  let ?R = "concat (map render segs)"
  let ?A' = "A @ render s"
  have out: "A @ concat (map render (s # segs)) = ?A' @ ?R" by simp
  have ne: "?A' \<noteq> []" by (cases s) simp_all
  have ih: "\<forall>k. length ?A' \<le> k \<and> k < length (?A' @ ?R) \<and> is_print_line ((?A' @ ?R) ! k)
          \<longrightarrow> is_already_wrapped (?A' @ ?R) k = Inr True"
  proof (intro Cons.IH)
    show "\<forall>s\<in>set segs. idempotent_segment s" using Cons.prems(1) by simp
    show "?A' = [] \<longrightarrow> (case segs of [] \<Rightarrow> True | s # _ \<Rightarrow> \<not> is_guarded s)"
      using ne by blast
  qed
  show ?case
    unfolding out
  proof (intro allI impI)
    fix k
    assume k: "length A \<le> k \<and> k < length (?A' @ ?R) \<and> is_print_line ((?A' @ ?R) ! k)"
    show "is_already_wrapped (?A' @ ?R) k = Inr True"
    proof (cases "length ?A' \<le> k")
      case True
      with ih k show ?thesis by blast
    next
      case False
      show ?thesis
      proof (cases s)
        case (Plain l)
        with False k have "k = length A" by simp
        then have "(?A' @ ?R) ! k = l" using Plain by simp
        with k Cons.prems(1) Plain show ?thesis by simp
      next
        case (Guarded n body)
        have A: "A \<noteq> []" using Cons.prems(2) Guarded by auto
        have xs: "?A' @ ?R = A @ guard_open_line n # body @ guard_close_line n # ?R"
          using Guarded by simp
        have seg: "length body \<le> 9"
          "\<forall>t<length body. is_print_line (body ! t) \<longrightarrow> (\<forall>u<t. \<not> is_declaration (body ! u))"
          using Cons.prems(1) Guarded by simp_all
        from k obtain m where m: "k = length A + m"
          by (auto simp: le_iff_add)
        with False Guarded have "m < Suc (Suc (length body))" by simp
        with m consider "k = length A" | t where "k = length A + Suc t" "t < length body"
          | "k = length A + Suc (length body)"
          by (cases m) (auto simp: less_Suc_eq)
        then show ?thesis
        proof cases
          case 1
          then have "(?A' @ ?R) ! k = guard_open_line n"
            unfolding xs by (simp only: nth_in_block(1))
          with k not_print_guard_open_line show ?thesis by simp
        next
          case 2
          then have "(?A' @ ?R) ! k = body ! t"
            unfolding xs by (simp only: nth_in_block(2))
          with k have "is_print_line (body ! t)" by simp
          with seg(2) 2(2) have "\<forall>u<t. \<not> is_declaration (body ! u)" by blast
          from block_wrapped [OF A seg(1) 2(2) this] show ?thesis
            unfolding xs 2(1) .
        next
          case 3
          then have "(?A' @ ?R) ! k = guard_close_line n"
            unfolding xs by (simp only: nth_in_block(3))
          with k not_print_guard_close_line show ?thesis by simp
        qed
      qed
    qed
  qed
qed

lemma span_lines_nth:
  assumes "t < length (span_lines lines i e)"
  shows "span_lines lines i e ! t = lines ! (i + t)"
  using assms by (simp add: span_lines_def nth_map_upt del: upt_Suc)

lemma span_lines_length: "length (span_lines lines i e) = Suc e - i"
  by (simp add: span_lines_def del: upt_Suc)

lemma guarded_span_idempotent:
  assumes i: "i < length lines" and p: "is_print_line (lines ! i)"
    and short: "spans_fit lines" and nodecl: "spans_declaration_free lines"
  shows "idempotent_segment (Guarded n (span_lines lines i (find_print_end lines i)))"
proof -
  let ?e = "find_print_end lines i"
  let ?body = "span_lines lines i ?e"
  have e: "i \<le> ?e" "?e \<le> i + 8"
    using i p short by (simp_all add: find_print_end_ge spans_fit_def)
  have len: "length ?body \<le> 9"
    using e by (simp add: span_lines_length)
  have "\<forall>u<t. \<not> is_declaration (?body ! u)"
    if t: "t < length ?body" and pt: "is_print_line (?body ! t)" for t
  proof (intro allI impI)
    fix u
    assume u: "u < t"
    have bt: "?body ! t = lines ! (i + t)" and bu: "?body ! u = lines ! (i + u)"
      using t u by (simp_all add: span_lines_nth)
    have "t < Suc ?e - i" using t by (simp add: span_lines_length)
    with u have jt: "i + t \<in> set [Suc i..<Suc ?e]"
      by (simp only: set_upt atLeastLessThan_iff) arith
    have pj: "is_print_line (lines ! (i + t))" using pt bt by simp
    have uu: "i + u \<in> set [i..<i + t]"
      using u by (simp only: set_upt atLeastLessThan_iff) arith
    have ii: "i \<in> set [0..<length lines]"
      using i by (simp only: set_upt atLeastLessThan_iff) arith
    have d0: "\<forall>i\<in>set [0..<length lines]. is_print_line (lines ! i)
        \<longrightarrow> (\<forall>j\<in>set [Suc i..<Suc (find_print_end lines i)]. is_print_line (lines ! j)
              \<longrightarrow> (\<forall>u\<in>set [i..<j]. \<not> is_declaration (lines ! u)))"
      using nodecl unfolding spans_declaration_free_def .
    from bspec [OF d0 ii] p
    have d1: "\<forall>j\<in>set [Suc i..<Suc ?e]. is_print_line (lines ! j)
        \<longrightarrow> (\<forall>u\<in>set [i..<j]. \<not> is_declaration (lines ! u))"
      by (rule mp)
    from bspec [OF d1 jt] pj
    have d2: "\<forall>u\<in>set [i..<i + t]. \<not> is_declaration (lines ! u)"
      by (rule mp)
    from bspec [OF d2 uu] have "\<not> is_declaration (lines ! (i + u))" .
    then show "\<not> is_declaration (?body ! u)" by (simp add: bu)
  qed
  with len show ?thesis by simp
qed

lemma segments_idempotent:
  "\<forall>l\<in>set lines. \<not> is_marker l \<Longrightarrow> spans_fit lines \<Longrightarrow> spans_declaration_free lines \<Longrightarrow>
   \<forall>s\<in>set (segments lines i). idempotent_segment s"
proof (induction lines i rule: segments.induct)
  case (1 lines i)
  show ?case
  proof (cases "i < length lines")
    case False
    then show ?thesis by (simp add: segments_end)
  next
    case True
    have nw: "is_already_wrapped lines i = Inr False"
      using "1.prems"(1) True by (intro unmarked_not_wrapped) simp_all
    show ?thesis
    proof (cases "is_print_line (lines ! i)")
      case p: True
      with nw have wrap: "is_print_line (lines ! i) \<and> is_already_wrapped lines i = Inr False"
        by simp
      have g: "idempotent_segment (Guarded (get_indentation (lines ! i))
          (span_lines lines i (find_print_end lines i)))"
        using True p "1.prems"(2,3) by (rule guarded_span_idempotent)
      have rest: "\<forall>s\<in>set (segments lines (Suc (find_print_end lines i))). idempotent_segment s"
        using True wrap "1.prems" by (rule "1.IH"(1))
      show ?thesis
        unfolding segments_guarded [OF True p nw]
        using g rest by (simp del: idempotent_segment.simps)
    next
      case np: False
      then have plain: "\<not> (is_print_line (lines ! i) \<and> is_already_wrapped lines i = Inr False)"
        by simp
      have g: "idempotent_segment (Plain (lines ! i))"
        using np by simp
      have rest: "\<forall>s\<in>set (segments lines (Suc i)). idempotent_segment s"
        using True plain "1.prems" by (rule "1.IH"(2))
      show ?thesis
        unfolding segments_plain [OF True plain]
        using g rest by (simp del: idempotent_segment.simps)
    qed
  qed
qed

lemma first_segment_plain:
  assumes "lines \<noteq> [] \<longrightarrow> \<not> is_print_line (lines ! 0)"
  shows "case segments lines 0 of [] \<Rightarrow> True | s # _ \<Rightarrow> \<not> is_guarded s"
proof (cases "lines = []")
  case True
  then show ?thesis by (simp add: segments_end)
next
  case False
  then have "0 < length lines" by simp
  moreover have "\<not> (is_print_line (lines ! 0) \<and> is_already_wrapped lines 0 = Inr False)"
    using assms False by simp
  ultimately show ?thesis by (simp add: segments_plain)
qed

text \<open>
  The loop run on its own output, with no file in between: under the conditions below
  every print line of the output is reported as already wrapped, and the second pass
  changes nothing.
\<close>

lemma second_pass_changes_nothing:
  assumes unmarked: "\<forall>l\<in>set lines. \<not> is_marker l"
    and first: "lines \<noteq> [] \<longrightarrow> \<not> is_print_line (lines ! 0)"
    and short: "spans_fit lines"
    and nodecl: "spans_declaration_free lines"
  shows "\<exists>out n. transform_lines lines = Inr (out, n)
     \<and> (\<forall>k<length out. is_print_line (out ! k) \<longrightarrow> is_already_wrapped out k = Inr True)
     \<and> transform_lines out = Inr (out, 0)"
proof -
  let ?segs = "segments lines 0"
  let ?out = "concat (map render ?segs)"
  have t: "transform_lines lines = Inr (?out, length (filter is_guarded ?segs))"
    by (simp add: transform_lines_def wrap_loop_segments)
  have ok: "\<forall>s\<in>set ?segs. idempotent_segment s"
    using unmarked short nodecl by (rule segments_idempotent)
  have "\<forall>k. length ([]::string list) \<le> k \<and> k < length ([] @ ?out) \<and> is_print_line (([] @ ?out) ! k)
      \<longrightarrow> is_already_wrapped ([] @ ?out) k = Inr True"
    using ok first_segment_plain [OF first] by (intro rendered_prints_wrapped) simp_all
  then have w: "\<forall>k<length ?out. is_print_line (?out ! k) \<longrightarrow> is_already_wrapped ?out k = Inr True"
    by simp
  then have "\<forall>k. k < length ?out
      \<longrightarrow> \<not> (is_print_line (?out ! k) \<and> is_already_wrapped ?out k = Inr False)"
    by auto
  then have again: "transform_lines ?out = Inr (?out, 0)"
    by (rule transform_nothing_to_wrap)
  with t w show ?thesis by (intro exI conjI)
qed


section \<open>The file after a run\<close>

lemma universal_newlines_no_cr: "carriage_return \<notin> set (universal_newlines s)"
  by (induction s rule: universal_newlines.induct)
    (auto simp: linefeed_def carriage_return_def)

lemma universal_newlines_id:
  "carriage_return \<notin> set s \<Longrightarrow> universal_newlines s = s"
  by (induction s rule: universal_newlines.induct) auto

lemma split_lines_line:
  "linefeed \<notin> set body \<Longrightarrow>
   split_lines cur (body @ linefeed # rest) = (cur @ body @ [linefeed]) # split_lines [] rest"
  by (induction body arbitrary: cur) auto

lemma split_lines_concat:
  "\<forall>l\<in>set ls. terminated l \<Longrightarrow> split_lines [] (concat ls) = ls"
proof (induction ls)
  case Nil
  then show ?case by simp
next
  case (Cons l ls)
  then have t: "terminated l" and rest: "split_lines [] (concat ls) = ls" by simp_all
  from t have l: "l = butlast l @ [linefeed]" and nl: "linefeed \<notin> set (butlast l)"
    unfolding terminated_def by (metis append_butlast_last_id, simp)
  have "split_lines [] (concat (l # ls)) = split_lines [] (butlast l @ linefeed # concat ls)"
    using l by (metis append.assoc append_Cons append_Nil concat.simps(2))
  also have "\<dots> = ([] @ butlast l @ [linefeed]) # split_lines [] (concat ls)"
    using nl by (rule split_lines_line)
  finally show ?case using l rest by simp
qed

text \<open>Lines that all end with their newline are read back as they were written.\<close>

lemma readlines_writelines:
  assumes "\<forall>l\<in>set ls. terminated l"
  shows "readlines (writelines ls) = ls"
proof -
  have "carriage_return \<notin> set (concat ls)"
    using assms by (auto simp: terminated_def)
  then show ?thesis
    unfolding readlines_def writelines_def
    by (simp add: universal_newlines_id split_lines_concat [OF assms])
qed

lemma split_lines_shape:
  "linefeed \<notin> set cur \<Longrightarrow>
   \<forall>l\<in>set (split_lines cur s).
     l \<noteq> [] \<and> linefeed \<notin> set (butlast l) \<and> set l \<subseteq> set cur \<union> set s"
proof (induction s arbitrary: cur)
  case Nil
  then show ?case by (auto dest: in_set_butlastD)
next
  case (Cons c s)
  show ?case
  proof (cases "c = linefeed")
    case True
    have "\<forall>l\<in>set (split_lines [] s).
        l \<noteq> [] \<and> linefeed \<notin> set (butlast l) \<and> set l \<subseteq> set [] \<union> set s"
      by (rule Cons.IH) simp
    with True Cons.prems show ?thesis by (auto simp: butlast_append)
  next
    case False
    have "\<forall>l\<in>set (split_lines (cur @ [c]) s).
        l \<noteq> [] \<and> linefeed \<notin> set (butlast l) \<and> set l \<subseteq> set (cur @ [c]) \<union> set s"
      using False Cons.prems by (intro Cons.IH) simp
    with False show ?thesis by auto
  qed
qed

lemma readlines_terminated:
  assumes "l \<in> set (readlines content)" "last l = linefeed"
  shows "terminated l"
proof -
  have "l \<noteq> [] \<and> linefeed \<notin> set (butlast l)
      \<and> set l \<subseteq> set [] \<union> set (universal_newlines content)"
    using split_lines_shape [of "[]" "universal_newlines content"] assms(1)
    unfolding readlines_def by simp
  with universal_newlines_no_cr [of content] assms(2) show ?thesis
    unfolding terminated_def by auto
qed

lemma guard_lines_terminated: "terminated (guard_open_line n)" "terminated (guard_close_line n)"
  by (auto simp: terminated_def guard_open_line_def guard_close_line_def linefeed_def
      carriage_return_def butlast_append)

lemma inserted_marker_terminated: "inserted_marker m \<Longrightarrow> terminated m"
  unfolding inserted_marker_def using guard_lines_terminated by metis

text \<open>
  C2 (guard pairing), evaluated. The last line of \<open>no_final_newline\<close> is a print
  without a newline. The rewriter appends that line and then the guard-close marker, and
  \<^verbatim>\<open>writelines\<close> writes the two as one line: the written file has a guard-open
  line and no guard-close line, so its markers are not paired, and the next run wraps the
  print again.
\<close>

theorem guard_close_joined_to_last_line:
  "list_all (\<lambda>l. \<not> is_marker l) (readlines no_final_newline)
   \<and> wrap_prints_in_file (Inr no_final_newline) True =
       Inr (Written ''import Foundation\<newline>#if DEBUG\<newline>print(x)#endif\<newline>'', 1)
   \<and> readlines ''import Foundation\<newline>#if DEBUG\<newline>print(x)#endif\<newline>'' =
       [''import Foundation\<newline>'', ''#if DEBUG\<newline>'', ''print(x)#endif\<newline>'']
   \<and> \<not> guards_paired Outside
         (readlines ''import Foundation\<newline>#if DEBUG\<newline>print(x)#endif\<newline>'')
   \<and> second_run no_final_newline =
       Inr (Written
         ''import Foundation\<newline>#if DEBUG\<newline>#if DEBUG\<newline>print(x)#endif\<newline>#endif\<newline>'', 1)"
  by code_simp

text \<open>
  C9 (frame/preservation), evaluated. The lines of \<open>crlf_file\<close> end with carriage
  return and line feed; the written file holds no carriage return, so no line of the
  input is in it byte for byte. The written file of \<open>no_final_newline\<close> ends with
  the line \<^verbatim>\<open>print(x)#endif\<close>, which is neither a line of the input nor a marker
  line, and the input line \<^verbatim>\<open>print(x)\<close> is not among its lines.
\<close>

theorem written_file_alters_lines:
  "carriage_return \<in> set crlf_file
   \<and> wrap_prints_in_file (Inr crlf_file) True =
       Inr (Written ''import Foundation\<newline>#if DEBUG\<newline>print(x)\<newline>#endif\<newline>'', 1)
   \<and> carriage_return \<notin> set ''import Foundation\<newline>#if DEBUG\<newline>print(x)\<newline>#endif\<newline>''
   \<and> readlines no_final_newline = [''import Foundation\<newline>'', ''print(x)'']
   \<and> wrap_prints_in_file (Inr no_final_newline) True =
       Inr (Written ''import Foundation\<newline>#if DEBUG\<newline>print(x)#endif\<newline>'', 1)
   \<and> readlines ''import Foundation\<newline>#if DEBUG\<newline>print(x)#endif\<newline>'' =
       [''import Foundation\<newline>'', ''#if DEBUG\<newline>'', ''print(x)#endif\<newline>'']
   \<and> \<not> inserted_marker ''print(x)#endif\<newline>''"
  by code_simp

text \<open>
  C1 (idempotence), as far as the code has it. For a file whose lines all end with a
  newline, that holds no guard-marker line, whose first line is no print line, and in
  which every print statement ends within 9 lines and holds no declaration line before a
  later print line of its span: the first run writes lines that are read back as they
  were written, every print line among them is reported as already wrapped, the loop
  changes nothing on them, and the second run of the program returns 0 and leaves the
  file untouched.
\<close>

theorem second_run_changes_nothing:
  assumes ended: "\<forall>l\<in>set (readlines content). last l = linefeed"
    and unmarked: "\<forall>l\<in>set (readlines content). \<not> is_marker l"
    and first: "readlines content \<noteq> [] \<longrightarrow> \<not> is_print_line (readlines content ! 0)"
    and short: "spans_fit (readlines content)"
    and nodecl: "spans_declaration_free (readlines content)"
  shows "\<exists>out n. transform_lines (readlines content) = Inr (out, n)
     \<and> wrap_prints_in_file (Inr content) True =
         Inr (if 0 < n then Written (writelines out) else Untouched, n)
     \<and> readlines (writelines out) = out
     \<and> (\<forall>k<length out. is_print_line (out ! k) \<longrightarrow> is_already_wrapped out k = Inr True)
     \<and> transform_lines out = Inr (out, 0)
     \<and> second_run content = Inr (Untouched, 0)"
proof -
  let ?lines = "readlines content"
  from second_pass_changes_nothing [OF unmarked first short nodecl]
  obtain out n where t: "transform_lines ?lines = Inr (out, n)"
    and w: "\<forall>k<length out. is_print_line (out ! k) \<longrightarrow> is_already_wrapped out k = Inr True"
    and again: "transform_lines out = Inr (out, 0)"
    by blast
  from transform_preserves_lines [of ?lines] t
  obtain ms where ms: "mset out = mset ?lines + mset ms" "\<forall>m\<in>set ms. inserted_marker m"
    by auto
  have "terminated l" if "l \<in> set out" for l
  proof -
    from that have "l \<in># mset ?lines + mset ms" using ms(1) by (metis set_mset_mset)
    then have "l \<in> set ?lines \<or> l \<in> set ms" by simp
    then show ?thesis
    proof
      assume l: "l \<in> set ?lines"
      with ended have "last l = linefeed" by simp
      with l show ?thesis by (rule readlines_terminated)
    next
      assume "l \<in> set ms"
      with ms(2) show ?thesis by (simp add: inserted_marker_terminated)
    qed
  qed
  then have reread: "readlines (writelines out) = out"
    by (intro readlines_writelines) simp
  have run1: "wrap_prints_in_file (Inr content) True =
      Inr (if 0 < n then Written (writelines out) else Untouched, n)"
    by (simp add: wrap_prints_in_file_def t)
  have untouched: "wrap_prints_in_file (Inr (writelines out)) True = Inr (Untouched, 0)"
    by (simp add: wrap_prints_in_file_def reread again)
  have run2: "second_run content = Inr (Untouched, 0)"
  proof (cases "0 < n")
    case True
    then show ?thesis by (simp add: second_run_def run1 untouched)
  next
    case False
    then show ?thesis by (simp add: second_run_def run1)
  qed
  from t run1 reread w again run2 show ?thesis by (intro exI conjI)
qed

theorem second_run_changes_nothing_witness:
  "list_all (\<lambda>l. last l = linefeed) (readlines (writelines wrapped_twice_ok))
   \<and> list_all (\<lambda>l. \<not> is_marker l) (readlines (writelines wrapped_twice_ok))
   \<and> readlines (writelines wrapped_twice_ok) \<noteq> []
   \<and> \<not> is_print_line (readlines (writelines wrapped_twice_ok) ! 0)
   \<and> spans_fit (readlines (writelines wrapped_twice_ok))
   \<and> spans_declaration_free (readlines (writelines wrapped_twice_ok))
   \<and> wrap_prints_in_file (Inr (writelines wrapped_twice_ok)) True =
       Inr (Written (writelines
         [''import Foundation\<newline>'', ''  #if DEBUG\<newline>'', ''  print(a,\<newline>'', ''    b)\<newline>'',
          ''  #endif\<newline>'', ''let y = 2\<newline>'', ''#if DEBUG\<newline>'', ''print(y)\<newline>'',
          ''#endif\<newline>'']), 2)
   \<and> second_run (writelines wrapped_twice_ok) = Inr (Untouched, 0)"
proof -
  let ?content = "writelines wrapped_twice_ok"
  have h: "list_all (\<lambda>l. last l = linefeed) (readlines ?content)"
    "list_all (\<lambda>l. \<not> is_marker l) (readlines ?content)"
    "readlines ?content \<noteq> []" "\<not> is_print_line (readlines ?content ! 0)"
    "spans_fit (readlines ?content)" "spans_declaration_free (readlines ?content)"
    by code_simp+
  have ended: "\<forall>l\<in>set (readlines ?content). last l = linefeed"
    using h(1) by (simp add: list_all_iff)
  have unmarked: "\<forall>l\<in>set (readlines ?content). \<not> is_marker l"
    using h(2) by (simp add: list_all_iff)
  have first: "readlines ?content \<noteq> [] \<longrightarrow> \<not> is_print_line (readlines ?content ! 0)"
    using h(4) by simp
  have run1: "wrap_prints_in_file (Inr ?content) True =
       Inr (Written (writelines
         [''import Foundation\<newline>'', ''  #if DEBUG\<newline>'', ''  print(a,\<newline>'', ''    b)\<newline>'',
          ''  #endif\<newline>'', ''let y = 2\<newline>'', ''#if DEBUG\<newline>'', ''print(y)\<newline>'',
          ''#endif\<newline>'']), 2)"
    by code_simp
  from second_run_changes_nothing [OF ended unmarked first h(5,6)]
  have run2: "second_run ?content = Inr (Untouched, 0)"
    by blast
  show ?thesis
    by (intro conjI h run1 run2)
qed

text \<open>
  C1 as stated fails, in three ways. The guard-close marker of a 12-line print statement
  lies outside the forward window of its first line, so the second run wraps the
  statement again, on the list in memory and on the written file alike. A print line
  inside a span whose first line is a declaration line is wrapped again, the backward
  scan stopping at the declaration. And a print that the first run took for wrapped by a
  guard that was there already is wrapped by the second run, after the markers of the
  first run have moved that guard out of the window.
\<close>

theorem second_run_rewraps_counterexample:
  "transform_lines long_statement = Inr (long_statement_once, 1)
   \<and> transform_lines long_statement_once = Inr (long_statement_twice, 1)
   \<and> wrap_prints_in_file (Inr (writelines long_statement)) True =
       Inr (Written (writelines long_statement_once), 1)
   \<and> second_run (writelines long_statement) = Inr (Written (writelines long_statement_twice), 1)
   \<and> second_run (writelines declaration_in_span) =
       Inr (Written (writelines
         [''import Foundation\<newline>'', ''#if DEBUG\<newline>'', ''let z = f(print(a),\<newline>'',
          ''  #if DEBUG\<newline>'', ''  print(b))\<newline>'', ''  #endif\<newline>'', ''#endif\<newline>'']), 1)
   \<and> second_run (writelines stale_guard) =
       Inr (Written (writelines
         ([''import Foundation\<newline>'', ''#if DEBUG\<newline>'', ''#if DEBUG\<newline>'', ''print(c)\<newline>'',
           ''#endif\<newline>''] @ replicate 7 ''work()\<newline>''
          @ [''#if DEBUG\<newline>'', ''print(a)\<newline>'', ''#endif\<newline>'', ''work()\<newline>'',
             ''#endif\<newline>''])), 1)"
  by code_simp

end
